theory Spec2Isabelle
  imports Main "HOL-Library.Sublist"
begin

section \<open>Strings\<close>

text \<open>
  A JavaScript string is a sequence of UTF-16 code units. The patterns of \<open>mutator.ts\<close>
  carry no \<open>u\<close> flag, so they work on code units, and every character they name lies
  in the Basic Multilingual Plane: one code unit each. A code unit is modelled as a
  natural number, a string as a list of them.
\<close>

type_synonym cu = nat
type_synonym jsstring = "cu list"

definition js :: "string \<Rightarrow> jsstring" where
  "js s = map of_char s"

definition apos :: cu where "apos = 39"        \<comment> \<open>U+0027, the straight apostrophe\<close>
definition dquote :: cu where "dquote = 34"    \<comment> \<open>U+0022, the straight double quote\<close>
definition lsquo :: cu where "lsquo = 8216"    \<comment> \<open>U+2018\<close>
definition rsquo :: cu where "rsquo = 8217"    \<comment> \<open>U+2019\<close>
definition ldquo :: cu where "ldquo = 8220"    \<comment> \<open>U+201C\<close>
definition rdquo :: cu where "rdquo = 8221"    \<comment> \<open>U+201D\<close>
definition prime :: cu where "prime = 8242"    \<comment> \<open>U+2032\<close>
definition dprime :: cu where "dprime = 8243"  \<comment> \<open>U+2033\<close>
definition tprime :: cu where "tprime = 8244"  \<comment> \<open>U+2034\<close>
definition emdash :: cu where "emdash = 8212"  \<comment> \<open>U+2014\<close>
definition hellip :: cu where "hellip = 8230"  \<comment> \<open>U+2026\<close>
definition space :: cu where "space = 32"
definition comma :: cu where "comma = 44"
definition hyphen :: cu where "hyphen = 45"
definition period :: cu where "period = 46"

section \<open>Regular expressions as JavaScript matches them\<close>

subsection \<open>Character classes\<close>

definition is_digit :: "cu \<Rightarrow> bool" where    \<comment> \<open>\<open>[0-9]\<close>\<close>
  "is_digit c \<longleftrightarrow> 48 \<le> c \<and> c \<le> 57"

definition is_upper :: "cu \<Rightarrow> bool" where    \<comment> \<open>\<open>[A-Z]\<close>\<close>
  "is_upper c \<longleftrightarrow> 65 \<le> c \<and> c \<le> 90"

definition is_lower :: "cu \<Rightarrow> bool" where    \<comment> \<open>\<open>[a-z]\<close>\<close>
  "is_lower c \<longleftrightarrow> 97 \<le> c \<and> c \<le> 122"

definition is_alpha :: "cu \<Rightarrow> bool" where    \<comment> \<open>\<open>[a-z]\<close> under the flag \<open>i\<close>\<close>
  "is_alpha c \<longleftrightarrow> is_upper c \<or> is_lower c"

definition is_word :: "cu \<Rightarrow> bool" where     \<comment> \<open>\<open>\w\<close>: \<open>[A-Za-z0-9_]\<close>\<close>
  "is_word c \<longleftrightarrow> is_alpha c \<or> is_digit c \<or> c = 95"

definition is_space :: "cu \<Rightarrow> bool" where    \<comment> \<open>\<open>\s\<close>: WhiteSpace and LineTerminator\<close>
  "is_space c \<longleftrightarrow>
     (9 \<le> c \<and> c \<le> 13) \<or> c = 32 \<or> c = 160 \<or> c = 5760 \<or> (8192 \<le> c \<and> c \<le> 8202) \<or>
     c = 8232 \<or> c = 8233 \<or> c = 8239 \<or> c = 8287 \<or> c = 12288 \<or> c = 65279"

subsection \<open>Patterns\<close>

datatype regex =
    Chr cu                  \<comment> \<open>a literal code unit\<close>
  | Cls "cu \<Rightarrow> bool"        \<comment> \<open>a class: \<open>[...]\<close>, \<open>[^...]\<close>, \<open>\w\<close>, \<open>\W\<close>, \<open>\S\<close>\<close>
  | Seq regex regex         \<comment> \<open>\<open>ab\<close>\<close>
  | Alt regex regex         \<comment> \<open>\<open>a|b\<close>\<close>
  | Star regex              \<comment> \<open>\<open>a*\<close>, greedy\<close>
  | Opt regex               \<comment> \<open>\<open>a?\<close>, greedy\<close>
  | Grp nat regex           \<comment> \<open>\<open>(a)\<close>, the capturing group of that number\<close>
  | Bol                     \<comment> \<open>\<open>^\<close>\<close>
  | Eol                     \<comment> \<open>\<open>$\<close>\<close>
  | WordB                   \<comment> \<open>\<open>\b\<close>\<close>
  | NotWordB                \<comment> \<open>\<open>\B\<close>\<close>
  | Ahead regex             \<comment> \<open>\<open>(?=a)\<close>\<close>

definition Plus :: "regex \<Rightarrow> regex" where       \<comment> \<open>\<open>a+\<close>\<close>
  "Plus r = Seq r (Star r)"

definition Twice :: "regex \<Rightarrow> regex" where      \<comment> \<open>\<open>a{2}\<close>\<close>
  "Twice r = Seq r r"

definition TwoOrMore :: "regex \<Rightarrow> regex" where  \<comment> \<open>\<open>a{2,}\<close>\<close>
  "TwoOrMore r = Seq r (Seq r (Star r))"

subsection \<open>The backtracking matcher\<close>

text \<open>
  A match state is a position in the subject: the code unit before it (none at the start
  of the string), the code units from it on, and the captures made so far, the latest
  first. \<open>matches r st\<close> lists the states in which a match of \<open>r\<close> begun at \<open>st\<close> can
  end, in the order in which backtracking tries them; the match JavaScript reports is
  the first of the list.
\<close>

datatype mstate = MState (prev: "cu option") (rest: jsstring) (caps: "(nat \<times> jsstring) list")

definition word_before :: "mstate \<Rightarrow> bool" where
  "word_before st = (case prev st of None \<Rightarrow> False | Some c \<Rightarrow> is_word c)"

definition word_after :: "mstate \<Rightarrow> bool" where
  "word_after st = (case rest st of [] \<Rightarrow> False | c # _ \<Rightarrow> is_word c)"

definition consume :: "(cu \<Rightarrow> bool) \<Rightarrow> mstate \<Rightarrow> mstate list" where
  "consume p st =
     (case rest st of
        [] \<Rightarrow> []
      | c # cs \<Rightarrow> if p c then [MState (Some c) cs (caps st)] else [])"

fun groups :: "regex \<Rightarrow> nat list" where
  "groups (Seq a b) = groups a @ groups b"
| "groups (Alt a b) = groups a @ groups b"
| "groups (Star a) = groups a"
| "groups (Opt a) = groups a"
| "groups (Grp n a) = n # groups a"
| "groups (Ahead a) = groups a"
| "groups _ = []"

definition forget :: "nat list \<Rightarrow> mstate \<Rightarrow> mstate" where
  \<comment> \<open>each round of a quantifier starts with the captures of its body undefined\<close>
  "forget ns st = MState (prev st) (rest st) (filter (\<lambda>(n, _). n \<notin> set ns) (caps st))"

fun star :: "nat \<Rightarrow> (mstate \<Rightarrow> mstate list) \<Rightarrow> mstate \<Rightarrow> mstate list" where
  \<comment> \<open>greedy: one more round first, a round that consumes nothing is rejected; the
     first argument bounds the number of rounds by the code units left\<close>
  "star 0 m st = [st]"
| "star (Suc n) m st =
     concat (map (\<lambda>st'. if length (rest st') < length (rest st) then star n m st' else [])
                 (m st)) @ [st]"

primrec matches :: "regex \<Rightarrow> mstate \<Rightarrow> mstate list" where
  "matches (Chr c) = consume (\<lambda>x. x = c)"
| "matches (Cls p) = consume p"
| "matches (Seq a b) = (\<lambda>st. concat (map (matches b) (matches a st)))"
| "matches (Alt a b) = (\<lambda>st. matches a st @ matches b st)"
| "matches (Star a) =
     (\<lambda>st. star (length (rest st)) (\<lambda>s. matches a (forget (groups a) s)) st)"
| "matches (Opt a) =
     (\<lambda>st. filter (\<lambda>st'. length (rest st') < length (rest st))
                   (matches a (forget (groups a) st)) @ [st])"
| "matches (Grp n a) =
     (\<lambda>st. map (\<lambda>st'. MState (prev st') (rest st')
                          ((n, take (length (rest st) - length (rest st')) (rest st)) # caps st'))
                (matches a st))"
| "matches Bol = (\<lambda>st. if prev st = None then [st] else [])"
| "matches Eol = (\<lambda>st. if rest st = [] then [st] else [])"
| "matches WordB = (\<lambda>st. if word_before st \<noteq> word_after st then [st] else [])"
| "matches NotWordB = (\<lambda>st. if word_before st = word_after st then [st] else [])"
| "matches (Ahead a) =
     (\<lambda>st. case matches a st of
             [] \<Rightarrow> []
           | st' # _ \<Rightarrow> [MState (prev st) (rest st) (caps st')])"

definition exec :: "regex \<Rightarrow> cu option \<Rightarrow> jsstring \<Rightarrow> mstate option" where
  \<comment> \<open>the match at one position of the subject, if there is one\<close>
  "exec r p s = (case matches r (MState p s []) of [] \<Rightarrow> None | st # _ \<Rightarrow> Some st)"

subsection \<open>\<open>String.prototype.replace\<close> with a global pattern\<close>

text \<open>
  The replacement is a function of the matched text and of the captures: the source
  passes either a template (\<open>'$1\<dots>$2'\<close>) or a callback. A group that took no part in
  the match expands to the empty string.
\<close>

type_synonym replacer = "jsstring \<Rightarrow> (nat \<times> jsstring) list \<Rightarrow> jsstring"

datatype titem = Lit cu | Ref nat    \<comment> \<open>a literal code unit, \<open>$n\<close>\<close>

definition capture :: "(nat \<times> jsstring) list \<Rightarrow> nat \<Rightarrow> jsstring" where
  "capture cs n = (case map_of cs n of None \<Rightarrow> [] | Some s \<Rightarrow> s)"

definition template :: "titem list \<Rightarrow> replacer" where
  "template t = (\<lambda>m cs. concat (map (\<lambda>i. case i of Lit c \<Rightarrow> [c] | Ref n \<Rightarrow> capture cs n) t))"

text \<open>
  The search moves through the subject from left to right. Where the pattern matches,
  the replacement is emitted and the search goes on behind the match; after an empty
  match it moves one code unit on, copying it. Where it does not match, the code unit
  is copied. The position behind the last code unit is tried as well.
\<close>

fun replace_at :: "regex \<Rightarrow> replacer \<Rightarrow> cu option \<Rightarrow> jsstring \<Rightarrow> jsstring" where
  "replace_at r f p [] =
     (case exec r p [] of None \<Rightarrow> [] | Some st \<Rightarrow> f [] (caps st))"
| "replace_at r f p (c # cs) =
     (case exec r p (c # cs) of
        None \<Rightarrow> c # replace_at r f (Some c) cs
      | Some st \<Rightarrow>
          (let n = length (c # cs) - length (rest st) in
           if n = 0 then f [] (caps st) @ c # replace_at r f (Some c) cs
           else f (take n (c # cs)) (caps st)
                @ replace_at r f (Some ((c # cs) ! (n - 1))) (drop (n - 1) cs)))"

definition replace :: "regex \<Rightarrow> replacer \<Rightarrow> jsstring \<Rightarrow> jsstring" where
  "replace r f s = replace_at r f None s"

section \<open>\<open>quotes\<close>\<close>

definition not_in :: "cu list \<Rightarrow> cu \<Rightarrow> bool" where   \<comment> \<open>\<open>[^...]\<close>\<close>
  "not_in cs c \<longleftrightarrow> c \<notin> set cs"

definition one_of :: "cu list \<Rightarrow> cu \<Rightarrow> bool" where   \<comment> \<open>\<open>[...]\<close>\<close>
  "one_of cs c \<longleftrightarrow> c \<in> set cs"

definition nonword :: "cu \<Rightarrow> bool" where   \<comment> \<open>\<open>\W\<close>\<close>
  "nonword c \<longleftrightarrow> \<not> is_word c"

definition nonspace :: "cu \<Rightarrow> bool" where  \<comment> \<open>\<open>\S\<close>\<close>
  "nonspace c \<longleftrightarrow> \<not> is_space c"

definition nondigit :: "cu \<Rightarrow> bool" where  \<comment> \<open>\<open>[^0-9]\<close>\<close>
  "nondigit c \<longleftrightarrow> \<not> is_digit c"

text \<open>
  The fourteen pairs of the source, in its order. Under the flag \<open>i\<close> (rules 7 to 10)
  the class \<open>[a-z]\<close> is \<open>[A-Za-z]\<close>; the other atoms of those patterns have no case.
\<close>

definition rule_triple_prime :: "regex \<times> replacer" where
  "rule_triple_prime = (Seq (Chr apos) (Seq (Chr apos) (Chr apos)), template [Lit tprime])"

definition rule_beginning_dquote :: "regex \<times> replacer" where
  "rule_beginning_dquote =
     (Seq (Grp 1 (Alt (Cls nonword) Bol)) (Seq (Chr dquote) (Grp 2 (Cls is_word))),
      template [Ref 1, Lit ldquo, Ref 2])"

definition rule_ending_dquote :: "regex \<times> replacer" where
  "rule_ending_dquote =
     (Seq (Grp 1 (Seq (Chr ldquo) (Star (Cls (not_in [dquote])))))
       (Seq (Chr dquote)
         (Grp 2 (Alt (Seq (Star (Cls (not_in [dquote]))) Eol)
                     (Seq (Star (Cls (not_in [ldquo, dquote]))) (Chr ldquo))))),
      template [Ref 1, Lit rdquo, Ref 2])"

definition rule_remaining_dquote :: "regex \<times> replacer" where
  "rule_remaining_dquote =
     (Seq (Grp 1 (Cls nondigit)) (Chr dquote), template [Ref 1, Lit rdquo])"

definition rule_double_prime_pair :: "regex \<times> replacer" where
  "rule_double_prime_pair = (Seq (Chr apos) (Chr apos), template [Lit dprime])"

definition rule_beginning_squote :: "regex \<times> replacer" where
  "rule_beginning_squote =
     (Seq (Grp 1 (Alt (Cls nonword) Bol)) (Seq (Chr apos) (Grp 2 (Cls nonspace))),
      template [Ref 1, Lit lsquo, Ref 2])"

definition rule_possession :: "regex \<times> replacer" where
  "rule_possession =
     (Seq (Grp 1 (Cls is_alpha)) (Seq (Chr apos) (Grp 2 (Cls is_alpha))),
      template [Ref 1, Lit rsquo, Ref 2])"

definition rule_abbrev_years :: "regex \<times> replacer" where
  "rule_abbrev_years =
     (Seq (Grp 1 (Chr lsquo))
       (Seq (Grp 2 (Seq (Twice (Cls is_digit)) (Star (Cls (not_in [rsquo])))))
         (Grp 3 (Alt (Seq (Chr lsquo) (Grp 4 (Alt (Cls nondigit) Eol)))
                (Alt Eol
                     (Seq (Chr rsquo) (Cls is_alpha)))))),
      template [Lit rsquo, Ref 2, Ref 3])"

definition rule_ending_squote :: "regex \<times> replacer" where
  "rule_ending_squote =
     (Seq (Grp 1 (Alt (Grp 2 (Seq (Chr lsquo) (Star (Cls (not_in [apos])))))
                      (Cls is_alpha)))
       (Seq (Chr apos) (Grp 3 (Alt (Cls nondigit) Eol))),
      template [Ref 1, Lit rsquo, Ref 3])"

definition rule_backwards_apostrophe :: "regex \<times> replacer" where
  "rule_backwards_apostrophe =
     (Seq (Grp 1 (Alt NotWordB Bol))
       (Seq (Chr lsquo)
         (Ahead
           (Seq (Star (Grp 2 (Seq (Star (Cls (not_in [lsquo, rsquo])))
                                  (Seq (Chr rsquo) WordB))))
                (Grp 3 (Alt (Seq (Star (Cls (not_in [lsquo, rsquo])))
                              (Seq NotWordB (Seq (Cls nonword)
                                (Seq (Cls (one_of [lsquo, rsquo])) WordB))))
                            (Seq (Star (Cls (not_in [lsquo, rsquo]))) Eol)))))),
      template [Ref 1, Lit rsquo])"

definition rule_double_prime :: "regex \<times> replacer" where
  "rule_double_prime = (Chr dquote, template [Lit dprime])"

definition rule_prime :: "regex \<times> replacer" where
  "rule_prime = (Chr apos, template [Lit prime])"

definition rule_emdash :: "regex \<times> replacer" where
  "rule_emdash = (Seq (Chr hyphen) (Chr hyphen), template [Lit emdash])"

definition rule_ellipsis :: "regex \<times> replacer" where
  "rule_ellipsis = (Seq (Chr period) (Plus (Chr period)), template [Lit hellip])"

definition quote_rules :: "(regex \<times> replacer) list" where
  "quote_rules =
     [rule_triple_prime, rule_beginning_dquote, rule_ending_dquote, rule_remaining_dquote,
      rule_double_prime_pair, rule_beginning_squote, rule_possession, rule_abbrev_years,
      rule_ending_squote, rule_backwards_apostrophe, rule_double_prime, rule_prime,
      rule_emdash, rule_ellipsis]"

definition quotes :: "jsstring \<Rightarrow> jsstring" where
  "quotes v = foldl (\<lambda>subject (search, replacement). replace search replacement subject)
                    v quote_rules"

section \<open>\<open>proper\<close>\<close>

subsection \<open>Case conversion\<close>

text \<open>
  \<open>String.prototype.toLowerCase\<close> and \<open>toUpperCase\<close> are built into the language. Their
  tables are written out here for the code units below U+0100; \<open>proper\<close> passes them no
  other code unit but U+2019, which has no case. A code unit from U+0100 on is left as
  it is.
\<close>

definition lower_cu :: "cu \<Rightarrow> cu" where
  "lower_cu c =
     (if is_upper c then c + 32
      else if 192 \<le> c \<and> c \<le> 222 \<and> c \<noteq> 215 then c + 32
      else c)"

definition upper_cu :: "cu \<Rightarrow> jsstring" where
  "upper_cu c =
     (if is_lower c then [c - 32]
      else if c = 181 then [924]
      else if c = 223 then [83, 83]
      else if c = 255 then [376]
      else if 224 \<le> c \<and> c \<le> 254 \<and> c \<noteq> 247 then [c - 32]
      else [c])"

definition toLowerCase :: "jsstring \<Rightarrow> jsstring" where
  "toLowerCase s = map lower_cu s"

definition toUpperCase :: "jsstring \<Rightarrow> jsstring" where
  "toUpperCase s = concat (map upper_cu s)"

definition ucFirst :: "jsstring \<Rightarrow> jsstring" where
  "ucFirst v = toUpperCase (take 1 v) @ drop 1 v"

subsection \<open>\<open>test\<close>, \<open>replace\<close> without the flag \<open>g\<close>, \<open>trim\<close>\<close>

fun test_at :: "regex \<Rightarrow> cu option \<Rightarrow> jsstring \<Rightarrow> bool" where
  "test_at r p [] = (exec r p [] \<noteq> None)"
| "test_at r p (c # cs) = (exec r p (c # cs) \<noteq> None \<or> test_at r (Some c) cs)"

definition test :: "regex \<Rightarrow> jsstring \<Rightarrow> bool" where
  "test r s = test_at r None s"

fun replace_first_at :: "regex \<Rightarrow> replacer \<Rightarrow> cu option \<Rightarrow> jsstring \<Rightarrow> jsstring" where
  "replace_first_at r f p [] =
     (case exec r p [] of None \<Rightarrow> [] | Some st \<Rightarrow> f [] (caps st))"
| "replace_first_at r f p (c # cs) =
     (case exec r p (c # cs) of
        None \<Rightarrow> c # replace_first_at r f (Some c) cs
      | Some st \<Rightarrow>
          (let n = length (c # cs) - length (rest st) in
           f (take n (c # cs)) (caps st) @ drop n (c # cs)))"

definition replace_first :: "regex \<Rightarrow> replacer \<Rightarrow> jsstring \<Rightarrow> jsstring" where
  "replace_first r f s = replace_first_at r f None s"

definition trim :: "jsstring \<Rightarrow> jsstring" where
  "trim s = rev (dropWhile is_space (rev (dropWhile is_space s)))"

subsection \<open>The capitalizer\<close>

definition hasBothUpperAndLower :: "jsstring \<Rightarrow> bool" where
  "hasBothUpperAndLower v \<longleftrightarrow> test (Cls is_upper) v \<and> test (Cls is_lower) v"

definition name_prefix_rx :: regex where
  \<comment> \<open>\<open>/^(ma?c|[od]\<dots>)(\S{2,}$)/i\<close>, the third code unit of the class alternative being U+2019\<close>
  "name_prefix_rx =
     Seq Bol
       (Seq (Grp 1 (Alt (Seq (Cls (one_of (js ''mM'')))
                           (Seq (Opt (Cls (one_of (js ''aA'')))) (Cls (one_of (js ''cC'')))))
                        (Seq (Cls (one_of (js ''oOdD''))) (Chr rsquo))))
            (Grp 2 (Seq (TwoOrMore (Cls nonspace)) Eol)))"

definition properNameCapitalizer :: "bool \<Rightarrow> jsstring \<Rightarrow> jsstring" where
  "properNameCapitalizer mixedCase match =
     (let lowerCaseMatch = toLowerCase match in
      if length match = 1 then toUpperCase match
      else if length match \<le> 3 \<and> lowerCaseMatch \<in> set [js ''ii'', js ''iii'', js ''iv'', js ''v'']
        then toUpperCase match
      else if length match \<le> 3 \<and> lowerCaseMatch \<in> set [js ''dit'', js ''de'', js ''von'']
        then lowerCaseMatch
      else if length match \<le> 3 \<and> mixedCase then match
      else replace_first name_prefix_rx
             (\<lambda>m cs. ucFirst (capture cs 1) @ ucFirst (capture cs 2))
             (ucFirst lowerCaseMatch))"

definition name_char :: "cu \<Rightarrow> bool" where
  \<comment> \<open>the class \<open>[A-Za-z0-9\u00C0-\u00FF\<dots> ,-]\<close> with U+2019 before the space\<close>
  "name_char c \<longleftrightarrow>
     is_upper c \<or> is_lower c \<or> is_digit c \<or> (192 \<le> c \<and> c \<le> 255) \<or>
     c = rsquo \<or> c = space \<or> c = comma \<or> c = hyphen"

definition proper :: "jsstring \<Rightarrow> jsstring" where
  "proper v =
     replace (Grp 1 (Plus (Cls (not_in [space, comma, hyphen]))))
             (\<lambda>m cs. properNameCapitalizer (hasBothUpperAndLower v) m)
       (trim
         (replace (Seq (Chr space) (Plus (Chr space))) (template [Lit space])
           (replace (Cls (\<lambda>c. \<not> name_char c)) (template [Lit space]) v)))"

section \<open>The coercion pipeline\<close>

text \<open>
  The values that flow through a pipeline, as far as \<open>index.ts\<close> tells them apart: an
  instance of \<open>Error\<close> (its name and its message) and the other values. A function is
  not one of them: it takes a value and either throws one (\<open>Inl\<close>) or returns one
  (\<open>Inr\<close>). Numbers are kept as integers; the pipeline never computes with them.
\<close>

datatype val =
    Undefined
  | Null
  | Boolean bool
  | Number int
  | String jsstring
  | Array "val list"
  | Error string jsstring

type_synonym func = "val \<Rightarrow> val + val"

datatype otherwise = Function func | Value val

fun instanceof_Error :: "val \<Rightarrow> bool" where
  "instanceof_Error (Error _ _) = True"
| "instanceof_Error _ = False"

function pipe :: "val \<Rightarrow> func list \<Rightarrow> nat \<Rightarrow> val + val" where
  "pipe v functions index =
     (if index = length functions then Inr v
      else if length functions < index
        then Inl (Error ''TypeError'' (js ''functions[index] is not a function''))
      else (case (functions ! index) v of
              Inl e \<Rightarrow> Inl e
            | Inr newValue \<Rightarrow> pipe newValue functions (index + 1)))"
  by pat_completeness auto
termination
  by (relation "measure (\<lambda>(v, functions, index). length functions - index)") auto

declare pipe.simps [simp del]

definition handleFailure :: "otherwise \<Rightarrow> val \<Rightarrow> val + val" where
  "handleFailure otherwise error =
     (case otherwise of
        Function f \<Rightarrow> (case f error of Inl e \<Rightarrow> Inl e | Inr thrown \<Rightarrow> Inl thrown)
      | Value v \<Rightarrow> if instanceof_Error v then Inl v else Inr v)"

definition coerce :: "val \<Rightarrow> func list \<Rightarrow> otherwise \<Rightarrow> val + val" where
  \<comment> \<open>\<open>coerce(value).to(...sanitizers).or(otherwise)\<close>\<close>
  "coerce v sanitizers otherwise =
     (case pipe v sanitizers 0 of
        Inr result \<Rightarrow> Inr result
      | Inl error \<Rightarrow> handleFailure otherwise error)"

text \<open>A stage that can fail, from \<open>validator.ts\<close>.\<close>

definition nonEmpty :: func where
  "nonEmpty v = (if v = String [] then Inl (Error ''Error'' (js ''Empty string'')) else Inr v)"

text \<open>An error factory as in the README: it wraps the message of the error it is given.\<close>

definition errorFactory :: func where
  "errorFactory e =
     (case e of
        Error n m \<Rightarrow> Inr (Error ''CustomError'' m)
      | _ \<Rightarrow> Inr (Error ''CustomError'' []))"

section \<open>Words of the specification\<close>

text \<open>
  A letter is uppercase when lowercasing changes it, lowercase when uppercasing
  changes it (as far as the case tables above go).
\<close>

definition uppercase_letter :: "cu \<Rightarrow> bool" where
  "uppercase_letter c \<longleftrightarrow> lower_cu c \<noteq> c"

definition lowercase_letter :: "cu \<Rightarrow> bool" where
  "lowercase_letter c \<longleftrightarrow> upper_cu c \<noteq> [c]"

definition quote_like :: "cu \<Rightarrow> bool" where
  \<comment> \<open>the straight quotes, the curly quotes and the primes\<close>
  "quote_like c \<longleftrightarrow> c \<in> set [apos, dquote, lsquo, rsquo, ldquo, rdquo, prime, dprime, tprime]"

definition quote_free :: "jsstring \<Rightarrow> bool" where
  "quote_free s \<longleftrightarrow> (\<forall>c\<in>set s. \<not> quote_like c)"

fun has_pair :: "cu \<Rightarrow> jsstring \<Rightarrow> bool" where
  \<comment> \<open>the string holds the code unit twice in a row: \<open>--\<close>, \<open>..\<close>, two spaces\<close>
  "has_pair c (x # y # zs) = (x = c \<and> y = c \<or> has_pair c (y # zs))"
| "has_pair c _ = False"

definition starts_with :: "cu \<Rightarrow> jsstring \<Rightarrow> bool" where
  "starts_with c s = (case s of [] \<Rightarrow> False | x # _ \<Rightarrow> x = c)"

definition ends_with :: "cu \<Rightarrow> jsstring \<Rightarrow> bool" where
  "ends_with c s = starts_with c (rev s)"

text \<open>
  The letters among the code units that \<open>proper\<close> can return: the ASCII letters, the
  letters of the Latin-1 Supplement (U+00C0 to U+00FF without the multiplication sign
  U+00D7 and the division sign U+00F7) and U+0178, the uppercase form of U+00FF.
\<close>

definition letter :: "cu \<Rightarrow> bool" where
  "letter c \<longleftrightarrow>
     is_upper c \<or> is_lower c \<or> (192 \<le> c \<and> c \<le> 255 \<and> c \<noteq> 215 \<and> c \<noteq> 247) \<or> c = 376"

text \<open>
  What a second run of \<open>quotes\<close> may do to a code unit: leave it, or turn U+2018 into
  U+2019.
\<close>

definition requoted :: "cu \<Rightarrow> cu \<Rightarrow> bool" where
  "requoted a b \<longleftrightarrow> a = b \<or> (a = lsquo \<and> b = rsquo)"

section \<open>Auxiliary notions\<close>

text \<open>One step of the cascade of \<open>quotes\<close>.\<close>

definition apply_rule :: "regex \<times> replacer \<Rightarrow> jsstring \<Rightarrow> jsstring" where
  "apply_rule rl subject =
     (case rl of (search, replacement) \<Rightarrow> replace search replacement subject)"

text \<open>A pattern needs a code unit when each of its matches consumes one.\<close>

fun needs :: "cu \<Rightarrow> regex \<Rightarrow> bool" where
  "needs c (Chr d) = (c = d)"
| "needs c (Seq a b) = (needs c a \<or> needs c b)"
| "needs c (Alt a b) = (needs c a \<and> needs c b)"
| "needs c (Grp n a) = needs c a"
| "needs c _ = False"

text \<open>
  The code units of a token of \<open>proper\<close>: those the restriction keeps, the separators
  apart; and the code units of a rewritten token, where uppercasing adds U+0178.
\<close>

definition token_char :: "cu \<Rightarrow> bool" where
  "token_char c \<longleftrightarrow> name_char c \<and> not_in [space, comma, hyphen] c"

definition out_char :: "cu \<Rightarrow> bool" where
  "out_char c \<longleftrightarrow> token_char c \<or> c = 376"

text \<open>The subject of the token rewriting of \<open>proper\<close>: restricted, collapsed, trimmed.\<close>

definition prepared :: "jsstring \<Rightarrow> jsstring" where
  "prepared v =
     trim (replace (Seq (Chr space) (Plus (Chr space))) (template [Lit space])
            (replace (Cls (\<lambda>c. \<not> name_char c)) (template [Lit space]) v))"

text \<open>
  A match that ends in \<open>st'\<close> after it began in \<open>st\<close> has consumed a prefix of what
  was left, and each capture it holds was there before or is cut from what was left.
\<close>

definition within :: "mstate \<Rightarrow> mstate \<Rightarrow> bool" where
  "within st st' \<longleftrightarrow>
     suffix (rest st') (rest st) \<and>
     (\<forall>e\<in>set (caps st'). e \<in> set (caps st) \<or> set (snd e) \<subseteq> set (rest st))"

section \<open>Evaluation\<close>

lemmas char_defs =
  apos_def dquote_def lsquo_def rsquo_def ldquo_def rdquo_def prime_def dprime_def tprime_def
  emdash_def hellip_def space_def comma_def hyphen_def period_def

lemmas class_defs =
  is_digit_def is_upper_def is_lower_def is_alpha_def is_word_def is_space_def not_in_def
  one_of_def nonword_def nonspace_def nondigit_def

lemmas rule_defs =
  rule_triple_prime_def rule_beginning_dquote_def rule_ending_dquote_def
  rule_remaining_dquote_def rule_double_prime_pair_def rule_beginning_squote_def
  rule_possession_def rule_abbrev_years_def rule_ending_squote_def
  rule_backwards_apostrophe_def rule_double_prime_def rule_prime_def rule_emdash_def
  rule_ellipsis_def

lemmas engine_defs =
  Plus_def Twice_def TwoOrMore_def word_before_def word_after_def consume_def forget_def
  exec_def capture_def template_def replace_def Let_def

lemmas quotes_defs = quotes_def quote_rules_def js_def char_defs class_defs rule_defs engine_defs

lemmas proper_defs =
  proper_def properNameCapitalizer_def hasBothUpperAndLower_def test_def replace_first_def
  trim_def name_char_def name_prefix_rx_def ucFirst_def toUpperCase_def toLowerCase_def
  upper_cu_def lower_cu_def js_def char_defs class_defs engine_defs

section \<open>Worked examples\<close>

text \<open>
  C1. For the input \<open>it's the '90s\<close>, \<open>quotes\<close> returns the same text with both
  apostrophes turned into U+2019: the one of \<open>it's\<close> as a contraction mark, the one
  before \<open>90s\<close> as a closing-style apostrophe and not as the opening quote U+2018.
\<close>

theorem quotes_its_the_90s:
  "quotes (js ''it'' @ [apos] @ js ''s the '' @ [apos] @ js ''90s'')
     = js ''it'' @ [rsquo] @ js ''s the '' @ [rsquo] @ js ''90s''"
  by (simp add: quotes_defs)

lemma quotes_odonnel:
  "quotes (js ''john q. o'' @ [apos] @ js ''donnel, III'')
     = js ''john q. o'' @ [rsquo] @ js ''donnel, III''"
  by (simp add: quotes_defs)

lemma proper_odonnel:
  "proper (js ''john q. o'' @ [rsquo] @ js ''donnel, III'')
     = js ''John Q O'' @ [rsquo] @ js ''Donnel, III''"
  by (simp add: proper_defs)

text \<open>
  C2. \<open>quotes\<close> and then \<open>proper\<close>, on \<open>john q. o'donnel, III\<close>, give
  \<open>John Q O\<dots>Donnel, III\<close> with U+2019 after the \<open>O\<close>: the period is gone, the
  single letter and the numeral are uppercase, the prefix and the rest of the name are
  both capitalized.
\<close>

theorem proper_quotes_odonnel:
  "proper (quotes (js ''john q. o'' @ [apos] @ js ''donnel, III''))
     = js ''John Q O'' @ [rsquo] @ js ''Donnel, III''"
  by (simp only: quotes_odonnel proper_odonnel)

section \<open>The token rules of \<open>properNameCapitalizer\<close>\<close>

lemma length_toLowerCase: "length (toLowerCase t) = length t"
  by (simp add: toLowerCase_def)

lemma proper_von_trap: "proper (js ''VON Trap'') = js ''von Trap''"
  by (simp add: proper_defs)

text \<open>
  C4. A token of at most three code units whose lowercase form is \<open>dit\<close>, \<open>de\<close> or
  \<open>von\<close> is rewritten to that lowercase form whatever the mixed-case flag says: the
  list of particles is consulted before the flag. So \<open>VON Trap\<close> becomes \<open>von Trap\<close>
  although the input has letters of both cases.
\<close>

theorem particle_before_mixed_case:
  "(\<forall>mixedCase t. length t \<le> 3 \<and> toLowerCase t \<in> set [js ''dit'', js ''de'', js ''von'']
       \<longrightarrow> properNameCapitalizer mixedCase t = toLowerCase t)
   \<and> proper (js ''VON Trap'') = js ''von Trap''"
proof (intro conjI allI impI)
  fix mixedCase t
  assume h: "length t \<le> 3 \<and> toLowerCase t \<in> set [js ''dit'', js ''de'', js ''von'']"
  then have len: "length (toLowerCase t) \<noteq> 1"
    by (auto simp: js_def)
  from h have notroman: "toLowerCase t \<notin> set [js ''ii'', js ''iii'', js ''iv'', js ''v'']"
    by (auto simp: js_def)
  from h len notroman show "properNameCapitalizer mixedCase t = toLowerCase t"
    unfolding properNameCapitalizer_def Let_def length_toLowerCase
    by (simp only: if_False if_True simp_thms)
next
  show "proper (js ''VON Trap'') = js ''von Trap''" by (rule proper_von_trap)
qed

theorem particle_before_mixed_case_witness:
  "length (js ''VON'') \<le> 3 \<and> toLowerCase (js ''VON'') \<in> set [js ''dit'', js ''de'', js ''von'']
   \<and> properNameCapitalizer True (js ''VON'') = js ''von''"
proof -
  have h: "length (js ''VON'') \<le> 3
           \<and> toLowerCase (js ''VON'') \<in> set [js ''dit'', js ''de'', js ''von'']"
    by (simp add: js_def toLowerCase_def lower_cu_def is_upper_def)
  have e: "toLowerCase (js ''VON'') = js ''von''"
    by (simp add: js_def toLowerCase_def lower_cu_def is_upper_def)
  from particle_before_mixed_case h
  have "properNameCapitalizer True (js ''VON'') = toLowerCase (js ''VON'')"
    by blast
  with h e show ?thesis by simp
qed

lemma exec_Cls:
  "exec (Cls q) p s =
     (case s of [] \<Rightarrow> None | c # cs \<Rightarrow> if q c then Some (MState (Some c) cs []) else None)"
  by (simp add: exec_def consume_def split: list.splits)

lemma test_at_Cls: "test_at (Cls q) p s \<longleftrightarrow> (\<exists>c\<in>set s. q c)"
  by (induction s arbitrary: p) (auto simp: exec_Cls)

lemma proper_prepared:
  "proper v = replace (Grp 1 (Plus (Cls (not_in [space, comma, hyphen]))))
                (\<lambda>m cs. properNameCapitalizer (hasBothUpperAndLower v) m) (prepared v)"
  by (simp add: proper_def prepared_def)

lemma proper_abc_company: "proper (js ''ABC company'') = js ''ABC Company''"
  by (simp add: proper_defs)

text \<open>
  C5, as the code has it. The flag of \<open>proper\<close> is computed from its argument, the
  input before any restriction (the tokens are cut from the prepared text, the flag is
  taken from \<open>v\<close>), and it is true exactly when that input has a code unit
  in \<open>A-Z\<close> and one in \<open>a-z\<close>: letters outside ASCII do not count. When it is true, a
  token of two or three code units whose lowercase form is neither a roman numeral of
  the list nor a particle is left as it is; \<open>ABC company\<close> becomes \<open>ABC Company\<close>.
\<close>

theorem mixed_case_flag:
  "proper v = replace (Grp 1 (Plus (Cls (not_in [space, comma, hyphen]))))
                (\<lambda>m cs. properNameCapitalizer (hasBothUpperAndLower v) m) (prepared v)
   \<and> (hasBothUpperAndLower v \<longleftrightarrow> (\<exists>c\<in>set v. is_upper c) \<and> (\<exists>c\<in>set v. is_lower c))
   \<and> (\<forall>t. (length t = 2 \<or> length t = 3)
          \<and> toLowerCase t \<notin> set [js ''ii'', js ''iii'', js ''iv'', js ''v'']
          \<and> toLowerCase t \<notin> set [js ''dit'', js ''de'', js ''von'']
        \<longrightarrow> properNameCapitalizer True t = t)
   \<and> proper (js ''ABC company'') = js ''ABC Company''"
proof (intro conjI allI impI)
  show "proper v = replace (Grp 1 (Plus (Cls (not_in [space, comma, hyphen]))))
                (\<lambda>m cs. properNameCapitalizer (hasBothUpperAndLower v) m) (prepared v)"
    by (rule proper_prepared)
next
  show "hasBothUpperAndLower v \<longleftrightarrow> (\<exists>c\<in>set v. is_upper c) \<and> (\<exists>c\<in>set v. is_lower c)"
    by (simp add: hasBothUpperAndLower_def test_def test_at_Cls)
next
  fix t
  assume h: "(length t = 2 \<or> length t = 3)
          \<and> toLowerCase t \<notin> set [js ''ii'', js ''iii'', js ''iv'', js ''v'']
          \<and> toLowerCase t \<notin> set [js ''dit'', js ''de'', js ''von'']"
  then have "length t \<noteq> 1" "length t \<le> 3" by auto
  with h show "properNameCapitalizer True t = t"
    unfolding properNameCapitalizer_def Let_def
    by (simp only: if_False if_True simp_thms)
next
  show "proper (js ''ABC company'') = js ''ABC Company''" by (rule proper_abc_company)
qed

theorem mixed_case_flag_witness:
  "hasBothUpperAndLower (js ''ABC company'') \<and> properNameCapitalizer True (js ''ABC'') = js ''ABC''"
proof -
  have a: "(\<exists>c\<in>set (js ''ABC company''). is_upper c) \<and> (\<exists>c\<in>set (js ''ABC company''). is_lower c)"
    by (simp add: js_def is_upper_def is_lower_def)
  have b: "(length (js ''ABC'') = 2 \<or> length (js ''ABC'') = 3)
          \<and> toLowerCase (js ''ABC'') \<notin> set [js ''ii'', js ''iii'', js ''iv'', js ''v'']
          \<and> toLowerCase (js ''ABC'') \<notin> set [js ''dit'', js ''de'', js ''von'']"
    by (simp add: js_def toLowerCase_def lower_cu_def is_upper_def)
  from mixed_case_flag [of "js ''ABC company''"] a b show ?thesis by blast
qed

text \<open>
  The claim as the specification words it fails at \<open>\<dots>mile abc\<close> with U+00C9 in
  front: the input has an uppercase letter (U+00C9) and lowercase letters, yet the flag
  is false and the three-letter token \<open>abc\<close> is capitalized instead of being kept.
\<close>

theorem mixed_case_flag_counterexample:
  "uppercase_letter 201 \<and> 201 \<in> set ([201] @ js ''mile abc'')
   \<and> lowercase_letter 109 \<and> 109 \<in> set ([201] @ js ''mile abc'')
   \<and> \<not> hasBothUpperAndLower ([201] @ js ''mile abc'')
   \<and> proper ([201] @ js ''mile abc'') = [201] @ js ''mile Abc''"
  by (simp add: uppercase_letter_def lowercase_letter_def proper_defs)

section \<open>The \<open>or\<close> boundary of the pipeline\<close>

lemma pipe_Nil: "pipe v [] 0 = Inr v"
  by (simp add: pipe.simps)

lemma pipe_Cons_Suc: "pipe v (f # fs) (Suc i) = pipe v fs i"
proof (induction v fs i rule: pipe.induct)
  case (1 v fs i)
  show ?case
  proof (cases "(fs ! i) v")
    case (Inl e)
    then show ?thesis
      by (subst pipe.simps, subst (2) pipe.simps) simp
  next
    case (Inr nv)
    show ?thesis
    proof (cases "i < length fs")
      case True
      with Inr "1.IH" [of nv] show ?thesis
        by (subst pipe.simps, subst (2) pipe.simps) simp
    next
      case False
      then show ?thesis
        by (subst pipe.simps, subst (2) pipe.simps) auto
    qed
  qed
qed

lemma pipe_Cons:
  "pipe v (f # fs) 0 = (case f v of Inl e \<Rightarrow> Inl e | Inr nv \<Rightarrow> pipe nv fs 0)"
  by (subst pipe.simps) (simp add: pipe_Cons_Suc split: sum.splits)

lemma pipe_stage_throws:
  "pipe v pre 0 = Inr x \<Longrightarrow> stage x = Inl error
     \<Longrightarrow> pipe v (pre @ stage # post) 0 = Inl error"
proof (induction pre arbitrary: v)
  case Nil
  then show ?case by (simp add: pipe_Nil pipe_Cons)
next
  case (Cons f pre)
  then show ?case by (auto simp: pipe_Cons split: sum.splits)
qed

text \<open>
  C9. Let the stages before some stage succeed and hand it the value \<open>x\<close>, and let that
  stage throw \<open>error\<close>. Then \<open>coerce(v).to(...).or(otherwise)\<close> goes by cases on
  \<open>otherwise\<close>: a function is called with \<open>error\<close> and what it returns is thrown; an
  instance of \<open>Error\<close> is thrown itself; any other value is returned.
\<close>

theorem or_boundary:
  assumes "pipe v pre 0 = Inr x" and "stage x = Inl error"
  shows "(\<forall>f thrown. otherwise = Function f \<and> f error = Inr thrown
            \<longrightarrow> coerce v (pre @ stage # post) otherwise = Inl thrown)
       \<and> (\<forall>w. otherwise = Value w \<and> instanceof_Error w
            \<longrightarrow> coerce v (pre @ stage # post) otherwise = Inl w)
       \<and> (\<forall>w. otherwise = Value w \<and> \<not> instanceof_Error w
            \<longrightarrow> coerce v (pre @ stage # post) otherwise = Inr w)"
proof -
  have "pipe v (pre @ stage # post) 0 = Inl error"
    using assms by (rule pipe_stage_throws)
  then show ?thesis
    by (simp add: coerce_def handleFailure_def)
qed

theorem or_boundary_witness:
  "pipe (String []) [Inr] 0 = Inr (String [])
   \<and> nonEmpty (String []) = Inl (Error ''Error'' (js ''Empty string''))
   \<and> coerce (String []) [Inr, nonEmpty] (Function errorFactory)
        = Inl (Error ''CustomError'' (js ''Empty string''))
   \<and> coerce (String []) [Inr, nonEmpty] (Value (Error ''Error'' (js ''Oh no!'')))
        = Inl (Error ''Error'' (js ''Oh no!''))
   \<and> coerce (String []) [Inr, nonEmpty] (Value Undefined) = Inr Undefined"
proof -
  have p: "pipe (String []) [Inr] 0 = Inr (String [])"
    by (simp add: pipe_Cons pipe_Nil)
  have s: "nonEmpty (String []) = Inl (Error ''Error'' (js ''Empty string''))"
    by (simp add: nonEmpty_def)
  have f: "errorFactory (Error ''Error'' (js ''Empty string''))
             = Inr (Error ''CustomError'' (js ''Empty string''))"
    by (simp add: errorFactory_def)
  from or_boundary [where stage = nonEmpty and otherwise = "Function errorFactory"
                      and post = "[]", OF p s] f
  have a: "coerce (String []) [Inr, nonEmpty] (Function errorFactory)
        = Inl (Error ''CustomError'' (js ''Empty string''))" by simp
  from or_boundary [where stage = nonEmpty
                      and otherwise = "Value (Error ''Error'' (js ''Oh no!''))"
                      and post = "[]", OF p s]
  have b: "coerce (String []) [Inr, nonEmpty] (Value (Error ''Error'' (js ''Oh no!'')))
        = Inl (Error ''Error'' (js ''Oh no!''))" by simp
  from or_boundary [where stage = nonEmpty and otherwise = "Value Undefined"
                      and post = "[]", OF p s]
  have c: "coerce (String []) [Inr, nonEmpty] (Value Undefined) = Inr Undefined" by simp
  from p s a b c show ?thesis by blast
qed

section \<open>What a match can consume\<close>

lemma rest_forget [simp]: "rest (forget ns st) = rest st"
  by (simp add: forget_def)

lemma consume_suffix: "st' \<in> set (consume q st) \<Longrightarrow> suffix (rest st') (rest st)"
  by (cases "rest st") (auto simp: consume_def suffix_ConsI split: if_splits)

lemma star_suffix:
  assumes m: "\<And>s s'. s' \<in> set (m s) \<Longrightarrow> suffix (rest s') (rest s)"
  shows "st' \<in> set (star n m st) \<Longrightarrow> suffix (rest st') (rest st)"
proof (induction n arbitrary: st)
  case 0
  then show ?case by simp
next
  case (Suc n)
  from Suc.prems consider "st' = st"
    | s where "s \<in> set (m st)" "st' \<in> set (star n m s)"
    by (auto split: if_splits)
  then show ?case
  proof cases
    case 1
    then show ?thesis by simp
  next
    case 2
    from Suc.IH [OF 2(2)] m [OF 2(1)] show ?thesis
      by (rule suffix_order.trans)
  qed
qed

lemma matches_suffix: "st' \<in> set (matches r st) \<Longrightarrow> suffix (rest st') (rest st)"
proof (induction r arbitrary: st st')
  case (Chr c)
  then show ?case by (simp add: consume_suffix)
next
  case (Cls q)
  then show ?case by (simp add: consume_suffix)
next
  case (Seq a b)
  from Seq.prems obtain s where "s \<in> set (matches a st)" "st' \<in> set (matches b s)"
    by auto
  then show ?case
    using Seq.IH suffix_order.trans by blast
next
  case (Alt a b)
  then show ?case by auto
next
  case (Star a)
  have "\<And>s s'. s' \<in> set (matches a (forget (groups a) s)) \<Longrightarrow> suffix (rest s') (rest s)"
    using Star.IH by fastforce
  with Star.prems show ?case
    using star_suffix [where m = "\<lambda>s. matches a (forget (groups a) s)"] by simp
next
  case (Opt a)
  then show ?case by fastforce
next
  case (Grp n a)
  then show ?case by auto
next
  case (Ahead a)
  then show ?case by (auto split: list.splits)
qed (auto split: if_splits)

lemma needs_no_match: "needs c r \<Longrightarrow> c \<notin> set (rest st) \<Longrightarrow> matches r st = []"
proof (induction r arbitrary: st)
  case (Chr d)
  then show ?case by (auto simp: consume_def split: list.splits)
next
  case (Seq a b)
  show ?case
  proof (cases "needs c a")
    case True
    with Seq show ?thesis by simp
  next
    case False
    with Seq.prems have nb: "needs c b" by simp
    have "matches b s = []" if "s \<in> set (matches a st)" for s
    proof -
      from that have "suffix (rest s) (rest st)" by (rule matches_suffix)
      then have "set (rest s) \<subseteq> set (rest st)" by (rule set_mono_suffix)
      with Seq.prems(2) have "c \<notin> set (rest s)" by blast
      with nb show ?thesis by (rule Seq.IH(2))
    qed
    then show ?thesis by simp
  qed
next
  case (Alt a b)
  then show ?case by simp
next
  case (Grp n a)
  then show ?case by simp
qed simp_all

lemma needs_exec: "needs c r \<Longrightarrow> c \<notin> set s \<Longrightarrow> exec r p s = None"
  by (simp add: exec_def needs_no_match)

lemma replace_at_no_match:
  "(\<And>p t. suffix t s \<Longrightarrow> exec r p t = None) \<Longrightarrow> replace_at r f p s = s"
proof (induction s arbitrary: p)
  case Nil
  then show ?case by simp
next
  case (Cons c cs)
  have "exec r p (c # cs) = None" by (rule Cons.prems) simp
  moreover have "replace_at r f (Some c) cs = cs"
    by (rule Cons.IH) (simp add: Cons.prems suffix_Cons)
  ultimately show ?case by simp
qed

lemma replace_needs: "needs c r \<Longrightarrow> c \<notin> set s \<Longrightarrow> replace r f s = s"
  unfolding replace_def
  by (rule replace_at_no_match) (meson needs_exec set_mono_suffix subsetD)


section \<open>The fallback rules of \<open>quotes\<close>\<close>

lemma template_Lit [simp]: "template [Lit x] m cs = [x]"
  by (simp add: template_def)

lemma exec_rest_suffix: "exec r p s = Some st \<Longrightarrow> suffix (rest st) s"
proof -
  assume "exec r p s = Some st"
  then have "st \<in> set (matches r (MState p s []))"
    by (auto simp: exec_def split: list.splits)
  from matches_suffix [OF this] show ?thesis by simp
qed

lemma replace_at_set:
  assumes f: "\<And>m cs. set (f m cs) \<subseteq> X"
  shows "set (replace_at r f p s) \<subseteq> X \<union> set s"
proof (induction "length s" arbitrary: s p rule: less_induct)
  case less
  show ?case
  proof (cases s)
    case Nil
    then show ?thesis using f by (fastforce split: option.splits)
  next
    case (Cons c cs)
    show ?thesis
    proof (cases "exec r p (c # cs)")
      case None
      with Cons less [of cs "Some c"] show ?thesis by auto
    next
      case (Some st)
      let ?n = "length (c # cs) - length (rest st)"
      have a: "set (replace_at r f (Some c) cs) \<subseteq> X \<union> set cs"
        using Cons less [of cs "Some c"] by simp
      have "set (replace_at r f (Some ((c # cs) ! (?n - 1))) (drop (?n - 1) cs))
              \<subseteq> X \<union> set (drop (?n - 1) cs)"
        using Cons less [of "drop (?n - 1) cs"] by simp
      then have b: "set (replace_at r f (Some ((c # cs) ! (?n - 1))) (drop (?n - 1) cs))
              \<subseteq> X \<union> set cs"
        using set_drop_subset [of "?n - 1" cs] by blast
      from f have f': "\<And>m cs x. x \<in> set (f m cs) \<Longrightarrow> x \<in> X" by blast
      from a b Some Cons show ?thesis
        by (auto simp: Let_def dest: f')
    qed
  qed
qed

lemma replace_const_set: "set (replace r (template [Lit x]) s) \<subseteq> insert x (set s)"
  using replace_at_set [where f = "template [Lit x]" and X = "{x}"]
  by (simp add: replace_def)

lemma exec_Chr:
  "exec (Chr c) p s =
     (case s of [] \<Rightarrow> None | y # ys \<Rightarrow> if y = c then Some (MState (Some y) ys []) else None)"
  by (simp add: exec_def consume_def split: list.splits)

lemma replace_at_Chr:
  "replace_at (Chr c) (template [Lit x]) p s = map (\<lambda>y. if y = c then x else y) s"
  by (induction s arbitrary: p) (simp_all add: exec_Chr)

lemma quotes_steps:
  "quotes v = foldl (\<lambda>subject rl. apply_rule rl subject) v quote_rules"
  by (simp add: quotes_def apply_rule_def)

lemma quotes_last_steps:
  "\<exists>t. quotes v = apply_rule rule_ellipsis (apply_rule rule_emdash
          (apply_rule rule_prime (apply_rule rule_double_prime t)))"
  by (simp add: quotes_steps quote_rules_def) blast

lemma apply_double_prime:
  "apply_rule rule_double_prime t = map (\<lambda>c. if c = dquote then dprime else c) t"
  by (simp add: apply_rule_def rule_double_prime_def replace_def replace_at_Chr)

lemma apply_prime:
  "apply_rule rule_prime t = map (\<lambda>c. if c = apos then prime else c) t"
  by (simp add: apply_rule_def rule_prime_def replace_def replace_at_Chr)

lemma apply_emdash_set: "set (apply_rule rule_emdash t) \<subseteq> insert emdash (set t)"
  by (simp add: apply_rule_def rule_emdash_def replace_const_set)

lemma apply_ellipsis_set: "set (apply_rule rule_ellipsis t) \<subseteq> insert hellip (set t)"
  by (simp add: apply_rule_def rule_ellipsis_def replace_const_set)

text \<open>
  C7. The output of \<open>quotes\<close> holds no straight apostrophe and no straight double
  quote: the two fallback rules turn every double quote that is left into U+2033 and
  every apostrophe that is left into U+2032, and the two rules after them add neither.
\<close>

theorem quotes_no_straight_quotes:
  "apos \<notin> set (quotes s) \<and> dquote \<notin> set (quotes s)
   \<and> (\<forall>t. apply_rule rule_double_prime t = map (\<lambda>c. if c = dquote then dprime else c) t)
   \<and> (\<forall>t. apply_rule rule_prime t = map (\<lambda>c. if c = apos then prime else c) t)"
proof -
  obtain t where q: "quotes s = apply_rule rule_ellipsis (apply_rule rule_emdash
          (apply_rule rule_prime (apply_rule rule_double_prime t)))"
    using quotes_last_steps by blast
  let ?u = "apply_rule rule_prime (apply_rule rule_double_prime t)"
  have u: "apos \<notin> set ?u \<and> dquote \<notin> set ?u"
    by (auto simp: apply_prime apply_double_prime char_defs)
  have "set (quotes s) \<subseteq> insert hellip (insert emdash (set ?u))"
    unfolding q using apply_ellipsis_set apply_emdash_set by blast
  with u have "apos \<notin> set (quotes s) \<and> dquote \<notin> set (quotes s)"
    by (auto simp: char_defs)
  then show ?thesis
    by (simp add: apply_prime apply_double_prime)
qed


section \<open>Text on which \<open>quotes\<close> changes nothing\<close>

lemma has_pair_append: "has_pair c s \<longleftrightarrow> (\<exists>xs ys. s = xs @ c # c # ys)"
proof (induction c s rule: has_pair.induct)
  case (1 c x y zs)
  show ?case
  proof
    assume "has_pair c (x # y # zs)"
    then consider "x = c \<and> y = c" | "has_pair c (y # zs)" by auto
    then show "\<exists>xs ys. x # y # zs = xs @ c # c # ys"
    proof cases
      case 1
      then have "x # y # zs = [] @ c # c # zs" by simp
      then show ?thesis by blast
    next
      case 2
      with "1.IH" obtain xs ys where "y # zs = xs @ c # c # ys" by blast
      then have "x # y # zs = (x # xs) @ c # c # ys" by simp
      then show ?thesis by blast
    qed
  next
    assume "\<exists>xs ys. x # y # zs = xs @ c # c # ys"
    then obtain xs ys where e: "x # y # zs = xs @ c # c # ys" by blast
    show "has_pair c (x # y # zs)"
    proof (cases xs)
      case Nil
      with e show ?thesis by simp
    next
      case (Cons a as)
      with e have "y # zs = as @ c # c # ys" by simp
      then have "has_pair c (y # zs)" using "1.IH" by blast
      then show ?thesis by simp
    qed
  qed
qed (auto simp: Cons_eq_append_conv)

lemma no_pair_suffix: "\<not> has_pair c s \<Longrightarrow> suffix t s \<Longrightarrow> \<not> (\<exists>zs. t = c # c # zs)"
  by (auto simp: has_pair_append suffix_def)

lemma matches_pair:
  "matches (Seq (Chr c) (Seq (Chr c) r)) st \<noteq> [] \<Longrightarrow> \<exists>zs. rest st = c # c # zs"
  by (cases "rest st"; cases "tl (rest st)")
     (auto simp: consume_def split: if_splits)

lemma matches_pair2:
  "matches (Seq (Chr c) (Chr c)) st \<noteq> [] \<Longrightarrow> \<exists>zs. rest st = c # c # zs"
  by (cases "rest st"; cases "tl (rest st)")
     (auto simp: consume_def split: if_splits)

lemma replace_no_pair:
  assumes "\<not> has_pair c s"
    and "\<And>st. matches r st \<noteq> [] \<Longrightarrow> \<exists>zs. rest st = c # c # zs"
  shows "replace r f s = s"
  unfolding replace_def
proof (rule replace_at_no_match)
  fix p t
  assume "suffix t s"
  with assms(1) have "\<not> (\<exists>zs. t = c # c # zs)" by (rule no_pair_suffix)
  with assms(2) [of "MState p t []"] have "matches r (MState p t []) = []" by auto
  then show "exec r p t = None" by (simp add: exec_def)
qed

lemma apply_rule_needs: "needs c (fst rl) \<Longrightarrow> c \<notin> set s \<Longrightarrow> apply_rule rl s = s"
  by (cases rl) (simp add: apply_rule_def replace_needs)

lemma rule_needs:
  "needs apos (fst rule_triple_prime)"
  "needs dquote (fst rule_beginning_dquote)"
  "needs dquote (fst rule_ending_dquote)"
  "needs dquote (fst rule_remaining_dquote)"
  "needs apos (fst rule_double_prime_pair)"
  "needs apos (fst rule_beginning_squote)"
  "needs apos (fst rule_possession)"
  "needs lsquo (fst rule_abbrev_years)"
  "needs apos (fst rule_ending_squote)"
  "needs lsquo (fst rule_backwards_apostrophe)"
  "needs dquote (fst rule_double_prime)"
  "needs apos (fst rule_prime)"
  by (simp_all add: rule_defs)

lemmas rule_id = rule_needs [THEN apply_rule_needs]

lemma apply_emdash_id:
  assumes "\<not> has_pair hyphen s"
  shows "apply_rule rule_emdash s = s"
proof -
  have "replace (Seq (Chr hyphen) (Chr hyphen)) f s = s" for f
    using assms by (rule replace_no_pair) (rule matches_pair2)
  then show ?thesis by (simp add: apply_rule_def rule_emdash_def)
qed

lemma apply_ellipsis_id:
  assumes "\<not> has_pair period s"
  shows "apply_rule rule_ellipsis s = s"
proof -
  have "replace (Seq (Chr period) (Seq (Chr period) (Star (Chr period)))) f s = s" for f
    using assms by (rule replace_no_pair) (rule matches_pair)
  then show ?thesis by (simp add: apply_rule_def rule_ellipsis_def Plus_def)
qed

lemma rules_id:
  assumes "apos \<notin> set s" "dquote \<notin> set s" "lsquo \<notin> set s"
    "\<not> has_pair hyphen s" "\<not> has_pair period s"
  shows "\<forall>rl\<in>set quote_rules. apply_rule rl s = s"
  using assms
  by (simp add: quote_rules_def rule_id apply_emdash_id apply_ellipsis_id)

lemma foldl_id: "\<forall>x\<in>set xs. f x s = s \<Longrightarrow> foldl (\<lambda>a x. f x a) s xs = s"
  by (induction xs) simp_all

lemma quotes_id:
  assumes "apos \<notin> set s" "dquote \<notin> set s" "lsquo \<notin> set s"
    "\<not> has_pair hyphen s" "\<not> has_pair period s"
  shows "quotes s = s"
  unfolding quotes_steps
  by (rule foldl_id) (rule rules_id [OF assms])

lemma quotes_Nil: "quotes [] = []"
  by (rule quotes_id) simp_all

text \<open>
  C8, as the code has it. On an input with no quote-like code unit, and with neither
  two hyphens nor two periods in a row, each of the rules is a no-op and \<open>quotes\<close>
  returns the input; \<open>quotes\<close> of the empty string is the empty string.
\<close>

theorem quotes_unchanged:
  "(quote_free s \<and> \<not> has_pair hyphen s \<and> \<not> has_pair period s
      \<longrightarrow> (\<forall>rl\<in>set quote_rules. apply_rule rl s = s) \<and> quotes s = s)
   \<and> quotes [] = []"
proof (intro conjI impI)
  assume h: "quote_free s \<and> \<not> has_pair hyphen s \<and> \<not> has_pair period s"
  then have q: "apos \<notin> set s" "dquote \<notin> set s" "lsquo \<notin> set s"
    by (auto simp: quote_free_def quote_like_def)
  from q h show "\<forall>rl\<in>set quote_rules. apply_rule rl s = s" by (simp add: rules_id)
  from q h show "quotes s = s" by (simp add: quotes_id)
next
  show "quotes [] = []" by (rule quotes_Nil)
qed

theorem quotes_unchanged_witness:
  "quote_free (js ''a-b.'') \<and> \<not> has_pair hyphen (js ''a-b.'') \<and> \<not> has_pair period (js ''a-b.'')
   \<and> quotes (js ''a-b.'') = js ''a-b.''"
proof -
  have h: "quote_free (js ''a-b.'') \<and> \<not> has_pair hyphen (js ''a-b.'') \<and> \<not> has_pair period (js ''a-b.'')"
    by (simp add: quote_free_def quote_like_def js_def char_defs)
  with quotes_unchanged [of "js ''a-b.''"] show ?thesis by blast
qed

text \<open>
  Without the condition on hyphens the claim fails: \<open>a--b\<close> has no quote-like code
  unit, and the rule for the dash rewrites it.
\<close>

theorem quotes_unchanged_counterexample:
  "quote_free (js ''a--b'') \<and> quotes (js ''a--b'') = [97, emdash, 98] \<and> [97, emdash, 98] \<noteq> js ''a--b''"
  by (simp add: quote_free_def quote_like_def quotes_defs)

section \<open>Greedy runs and tokens\<close>

lemma forget_Nil [simp]: "forget [] st = st"
  by (cases st) (simp add: forget_def)

lemma consume_Nil: "rest st = [] \<Longrightarrow> consume q st = []"
  by (simp add: consume_def)

lemma consume_Cons:
  "rest st = c # cs \<Longrightarrow> consume q st = (if q c then [MState (Some c) cs (caps st)] else [])"
  by (simp add: consume_def)

lemma star_consume:
  "length (rest st) \<le> n \<Longrightarrow>
     \<exists>pv tl. star n (consume q) st = MState pv (dropWhile q (rest st)) (caps st) # tl"
proof (induction n arbitrary: st)
  case 0
  then show ?case by (cases st) simp
next
  case (Suc n)
  show ?case
  proof (cases "rest st")
    case Nil
    then show ?thesis by (cases st) (simp add: consume_Nil)
  next
    case (Cons c cs)
    show ?thesis
    proof (cases "q c")
      case False
      with Cons show ?thesis by (cases st) (simp add: consume_Cons)
    next
      case True
      let ?st1 = "MState (Some c) cs (caps st)"
      from Suc.prems Cons have "length (rest ?st1) \<le> n" by simp
      from Suc.IH [OF this] obtain pv tl where
        "star n (consume q) ?st1 = MState pv (dropWhile q cs) (caps st) # tl" by auto
      with Cons True show ?thesis by (simp add: consume_Cons)
    qed
  qed
qed

lemma matches_Star_Cls:
  "\<exists>pv tl. matches (Star (Cls q)) st = MState pv (dropWhile q (rest st)) (caps st) # tl"
  using star_consume [of st "length (rest st)" q] by simp

lemma matches_Star_Chr:
  "\<exists>pv tl. matches (Star (Chr c)) st = MState pv (dropWhile (\<lambda>x. x = c) (rest st)) (caps st) # tl"
  using star_consume [of st "length (rest st)" "\<lambda>x. x = c"] by simp

lemma exec_token_None: "s = [] \<or> \<not> q (hd s) \<Longrightarrow> exec (Grp k (Plus (Cls q))) p s = None"
  by (cases s) (auto simp: exec_def Plus_def consume_def)

lemma exec_token_Some:
  assumes "q c"
  shows "\<exists>st. exec (Grp k (Plus (Cls q))) p (c # cs) = Some st \<and> rest st = dropWhile q cs"
proof -
  obtain pv tl where
    "matches (Star (Cls q)) (MState (Some c) cs []) = MState pv (dropWhile q cs) [] # tl"
    using matches_Star_Cls [of q "MState (Some c) cs []"] by auto
  with assms show ?thesis
    by (simp add: exec_def Plus_def consume_def)
qed

lemma length_minus_dropWhile:
  "length cs - length (dropWhile q cs) = length (takeWhile q cs)"
  by (metis add_diff_cancel_right' length_append takeWhile_dropWhile_id)

lemma replace_at_token:
  "replace_at (Grp k (Plus (Cls q))) (\<lambda>m cs. g m) p (c # cs) =
     (if q c
      then g (c # takeWhile q cs)
           @ replace_at (Grp k (Plus (Cls q))) (\<lambda>m cs. g m)
               (Some ((c # cs) ! length (takeWhile q cs))) (dropWhile q cs)
      else c # replace_at (Grp k (Plus (Cls q))) (\<lambda>m cs. g m) (Some c) cs)"
proof (cases "q c")
  case False
  then show ?thesis by (simp add: exec_token_None)
next
  case True
  from True obtain st where
    st: "exec (Grp k (Plus (Cls q))) p (c # cs) = Some st" "rest st = dropWhile q cs"
    using exec_token_Some [where q = q and c = c] by blast
  have le: "length (dropWhile q cs) \<le> length cs"
    by (rule length_dropWhile_le)
  then have n: "Suc (length cs) - length (rest st) = Suc (length (takeWhile q cs))"
    using length_minus_dropWhile [of cs q] by (simp add: st(2) Suc_diff_le)
  from le have n0: "\<not> Suc (length cs) \<le> length (rest st)"
    by (simp add: st(2))
  have t: "take (length (takeWhile q cs)) cs = takeWhile q cs"
    using takeWhile_eq_take [of q cs] by simp
  have d: "drop (length (takeWhile q cs)) cs = dropWhile q cs"
    using dropWhile_eq_drop [of q cs] by simp
  from True show ?thesis
    by (simp add: st(1) n n0 t d Let_def)
qed

lemma replace_at_token_Nil:
  "replace_at (Grp k (Plus (Cls q))) f p [] = []"
  by (simp add: exec_token_None)


lemma replace_at_Cls:
  "replace_at (Cls q) (template [Lit x]) p s = map (\<lambda>y. if q y then x else y) s"
  by (induction s arbitrary: p) (simp_all add: exec_Cls)

lemma has_pair_Cons: "has_pair c (x # xs) \<longleftrightarrow> (x = c \<and> starts_with c xs) \<or> has_pair c xs"
  by (cases xs) (auto simp: starts_with_def)

lemma starts_with_Nil [simp]: "\<not> starts_with c []"
  by (simp add: starts_with_def)

lemma starts_with_Cons [simp]: "starts_with c (x # xs) \<longleftrightarrow> x = c"
  by (simp add: starts_with_def)

lemma starts_with_dropWhile: "\<not> starts_with c (dropWhile (\<lambda>x. x = c) s)"
  by (induction s) auto

lemma exec_collapse_None:
  assumes "\<not> (\<exists>zs. s = c # c # zs)"
  shows "exec (Seq (Chr c) (Plus (Chr c))) p s = None"
proof -
  have "matches (Seq (Chr c) (Seq (Chr c) (Star (Chr c)))) (MState p s []) \<noteq> []
          \<Longrightarrow> \<exists>zs. rest (MState p s []) = c # c # zs"
    by (rule matches_pair)
  with assms have m: "matches (Seq (Chr c) (Seq (Chr c) (Star (Chr c)))) (MState p s []) = []"
    unfolding mstate.sel by blast
  show ?thesis
    unfolding exec_def Plus_def by (simp only: m list.case)
qed

lemma exec_collapse_Some:
  "\<exists>st. exec (Seq (Chr c) (Plus (Chr c))) p (c # c # zs) = Some st
        \<and> rest st = dropWhile (\<lambda>x. x = c) zs"
proof -
  obtain pv tl where
    "matches (Star (Chr c)) (MState (Some c) zs [])
       = MState pv (dropWhile (\<lambda>x. x = c) zs) [] # tl"
    using matches_Star_Chr [of c "MState (Some c) zs []"] by auto
  then show ?thesis
    by (simp add: exec_def Plus_def consume_Cons)
qed

lemma replace_at_collapse:
  "replace_at (Seq (Chr c) (Plus (Chr c))) (template [Lit x]) p (c # c # zs) =
     x # replace_at (Seq (Chr c) (Plus (Chr c))) (template [Lit x])
           (Some ((c # zs) ! length (takeWhile (\<lambda>x. x = c) zs)))
           (dropWhile (\<lambda>x. x = c) zs)"
proof -
  let ?q = "\<lambda>x. x = c"
  obtain st where
    st: "exec (Seq (Chr c) (Plus (Chr c))) p (c # c # zs) = Some st" "rest st = dropWhile ?q zs"
    using exec_collapse_Some by blast
  have le: "length (dropWhile ?q zs) \<le> length zs"
    by (rule length_dropWhile_le)
  then have n: "Suc (Suc (length zs)) - length (rest st) = Suc (Suc (length (takeWhile ?q zs)))"
    using length_minus_dropWhile [of zs ?q] by (simp add: st(2) Suc_diff_le)
  from le have n0: "\<not> Suc (Suc (length zs)) \<le> length (rest st)"
    by (simp add: st(2))
  have d: "drop (length (takeWhile ?q zs)) zs = dropWhile ?q zs"
    using dropWhile_eq_drop [of ?q zs] by simp
  show ?thesis
    by (simp add: st(1) n n0 d Let_def)
qed

lemma collapse_no_pair:
  "\<not> has_pair c (replace_at (Seq (Chr c) (Plus (Chr c))) (template [Lit c]) p s)
   \<and> (starts_with c (replace_at (Seq (Chr c) (Plus (Chr c))) (template [Lit c]) p s)
        \<longrightarrow> starts_with c s)"
proof (induction "length s" arbitrary: s p rule: less_induct)
  case less
  let ?R = "\<lambda>p s. replace_at (Seq (Chr c) (Plus (Chr c))) (template [Lit c]) p s"
  show ?case
  proof (cases s)
    case Nil
    then show ?thesis by (simp add: exec_collapse_None)
  next
    case (Cons a as)
    show ?thesis
    proof (cases "a = c \<and> starts_with c as")
      case True
      then obtain zs where s: "s = c # c # zs"
        using Cons by (cases as) auto
      let ?t = "dropWhile (\<lambda>x. x = c) zs"
      have "length ?t < length s"
        using length_dropWhile_le [of "\<lambda>x. x = c" zs] s by simp
      from less [OF this] have
        ih: "\<not> has_pair c (?R p' ?t)" "starts_with c (?R p' ?t) \<longrightarrow> starts_with c ?t" for p'
        by auto
      from ih(2) starts_with_dropWhile have "\<not> starts_with c (?R p' ?t)" for p'
        by blast
      with ih(1) show ?thesis
        unfolding s replace_at_collapse by (simp add: has_pair_Cons)
    next
      case False
      then have "\<not> (\<exists>zs. s = c # c # zs)"
        using Cons by auto
      then have e: "exec (Seq (Chr c) (Plus (Chr c))) p (a # as) = None"
        unfolding Cons by (rule exec_collapse_None)
      have "length as < length s" using Cons by simp
      from less [OF this] have
        ih: "\<not> has_pair c (?R p' as)" "starts_with c (?R p' as) \<longrightarrow> starts_with c as" for p'
        by auto
      from False ih show ?thesis
        unfolding Cons by (auto simp: e has_pair_Cons)
    qed
  qed
qed


lemma within_refl: "within st st"
  by (simp add: within_def)

lemma within_trans: "within a b \<Longrightarrow> within b c \<Longrightarrow> within a c"
  unfolding within_def
  by (meson set_mono_suffix subset_trans suffix_order.trans)

lemma within_forget: "within st (forget ns st)"
  by (auto simp: within_def forget_def)

lemma star_within:
  assumes m: "\<And>s s'. s' \<in> set (m s) \<Longrightarrow> within s s'"
  shows "st' \<in> set (star n m st) \<Longrightarrow> within st st'"
proof (induction n arbitrary: st)
  case 0
  then show ?case by (simp add: within_refl)
next
  case (Suc n)
  from Suc.prems consider "st' = st"
    | s where "s \<in> set (m st)" "st' \<in> set (star n m s)"
    by (auto split: if_splits)
  then show ?case
  proof cases
    case 1
    then show ?thesis by (simp add: within_refl)
  next
    case 2
    from m [OF 2(1)] Suc.IH [OF 2(2)] show ?thesis
      by (rule within_trans)
  qed
qed

lemma consume_within: "st' \<in> set (consume q st) \<Longrightarrow> within st st'"
  by (cases "rest st") (auto simp: consume_def within_def suffix_ConsI split: if_splits)

lemma matches_within: "st' \<in> set (matches r st) \<Longrightarrow> within st st'"
proof (induction r arbitrary: st st')
  case (Chr c)
  then show ?case by (simp add: consume_within)
next
  case (Cls q)
  then show ?case by (simp add: consume_within)
next
  case (Seq a b)
  from Seq.prems obtain s where "s \<in> set (matches a st)" "st' \<in> set (matches b s)"
    by auto
  then show ?case
    using Seq.IH within_trans by blast
next
  case (Alt a b)
  then show ?case by auto
next
  case (Star a)
  have "\<And>s s'. s' \<in> set (matches a (forget (groups a) s)) \<Longrightarrow> within s s'"
    using Star.IH within_forget within_trans by blast
  with Star.prems show ?case
    using star_within [where m = "\<lambda>s. matches a (forget (groups a) s)"] by simp
next
  case (Opt a)
  from Opt.prems consider "st' = st" | "st' \<in> set (matches a (forget (groups a) st))"
    by auto
  then show ?case
  proof cases
    case 1
    then show ?thesis by (simp add: within_refl)
  next
    case 2
    then show ?thesis using Opt.IH within_forget within_trans by blast
  qed
next
  case (Grp n a)
  from Grp.prems obtain s where s: "s \<in> set (matches a st)"
    and st': "st' = MState (prev s) (rest s)
                      ((n, take (length (rest st) - length (rest s)) (rest st)) # caps s)"
    by auto
  from Grp.IH [OF s] have "within st s" .
  then show ?case
    unfolding within_def st' using set_take_subset by fastforce
next
  case (Ahead a)
  from Ahead.prems obtain s tl where m: "matches a st = s # tl"
    and st': "st' = MState (prev st) (rest st) (caps s)"
    by (cases "matches a st") auto
  from m have "s \<in> set (matches a st)" by simp
  from Ahead.IH [OF this] show ?case
    unfolding within_def st' by simp
qed (auto simp: within_refl split: if_splits)

lemma exec_caps:
  assumes "exec r p t = Some st"
  shows "set (capture (caps st) n) \<subseteq> set t"
proof -
  from assms have "st \<in> set (matches r (MState p t []))"
    by (auto simp: exec_def split: list.splits)
  then have "within (MState p t []) st" by (rule matches_within)
  then have c: "\<forall>e\<in>set (caps st). set (snd e) \<subseteq> set t"
    by (simp add: within_def)
  show ?thesis
  proof (cases "map_of (caps st) n")
    case None
    then show ?thesis by (simp add: capture_def)
  next
    case (Some w)
    then have "(n, w) \<in> set (caps st)" by (rule map_of_SomeD)
    with c have "set w \<subseteq> set t" by fastforce
    with Some show ?thesis by (simp add: capture_def)
  qed
qed

lemma replace_first_at_set:
  assumes "\<And>p t st m. suffix t s \<Longrightarrow> exec r p t = Some st \<Longrightarrow> set (f m (caps st)) \<subseteq> X"
  shows "set (replace_first_at r f p s) \<subseteq> X \<union> set s"
  using assms
proof (induction s arbitrary: p)
  case Nil
  then show ?case
    by (cases "exec r p []") auto
next
  case (Cons c cs)
  show ?case
  proof (cases "exec r p (c # cs)")
    case None
    have "set (replace_first_at r f (Some c) cs) \<subseteq> X \<union> set cs"
      by (rule Cons.IH) (meson Cons.prems suffix_ConsI)
    with None show ?thesis by auto
  next
    case (Some st)
    then have "set (f m (caps st)) \<subseteq> X" for m
      using Cons.prems [of "c # cs" p st m] by simp
    moreover have "set (drop k (c # cs)) \<subseteq> set (c # cs)" for k
      by (rule set_drop_subset)
    ultimately show ?thesis
      using Some by (auto simp: Let_def simp del: drop_Cons' drop.simps)
  qed
qed

lemma replace_first_at_nonempty:
  assumes "\<And>p t st m. exec r p t = Some st \<Longrightarrow> f m (caps st) \<noteq> []"
  shows "s \<noteq> [] \<Longrightarrow> replace_first_at r f p s \<noteq> []"
  using assms by (cases s; cases "exec r p s") (auto simp: Let_def)


lemmas token_char_defs =
  token_char_def out_char_def name_char_def not_in_def is_upper_def is_lower_def is_digit_def
  char_defs

lemma lower_cu_token: "token_char c \<Longrightarrow> token_char (lower_cu c)"
  by (auto simp: token_char_defs lower_cu_def)

lemma upper_cu_out: "out_char c \<Longrightarrow> d \<in> set (upper_cu c) \<Longrightarrow> out_char d"
  by (auto simp: token_char_defs upper_cu_def split: if_splits)

lemma upper_cu_nonempty: "upper_cu c \<noteq> []"
  by (simp add: upper_cu_def)

lemma token_out: "token_char c \<Longrightarrow> out_char c"
  by (simp add: out_char_def)

lemma toLowerCase_token: "\<forall>c\<in>set w. token_char c \<Longrightarrow> \<forall>c\<in>set (toLowerCase w). token_char c"
  by (auto simp: toLowerCase_def lower_cu_token)

lemma toUpperCase_out: "\<forall>c\<in>set w. out_char c \<Longrightarrow> \<forall>c\<in>set (toUpperCase w). out_char c"
  by (auto simp: toUpperCase_def dest: upper_cu_out)

lemma toUpperCase_nonempty: "w \<noteq> [] \<Longrightarrow> toUpperCase w \<noteq> []"
  by (cases w) (simp_all add: toUpperCase_def upper_cu_nonempty)

lemma ucFirst_out: "\<forall>c\<in>set w. out_char c \<Longrightarrow> \<forall>c\<in>set (ucFirst w). out_char c"
proof -
  assume a: "\<forall>c\<in>set w. out_char c"
  then have "\<forall>c\<in>set (take 1 w). out_char c"
    by (meson in_set_takeD)
  then have "\<forall>c\<in>set (toUpperCase (take 1 w)). out_char c"
    by (rule toUpperCase_out)
  moreover from a have "\<forall>c\<in>set (drop 1 w). out_char c"
    by (meson in_set_dropD)
  ultimately show ?thesis
    by (auto simp: ucFirst_def)
qed

lemma ucFirst_nonempty: "w \<noteq> [] \<Longrightarrow> ucFirst w \<noteq> []"
  by (cases w) (simp_all add: ucFirst_def toUpperCase_def upper_cu_nonempty)

lemma consume_shorter: "st' \<in> set (consume q st) \<Longrightarrow> length (rest st') < length (rest st)"
  by (cases "rest st") (auto simp: consume_def split: if_splits)

lemma matches_length: "st' \<in> set (matches r st) \<Longrightarrow> length (rest st') \<le> length (rest st)"
  using matches_suffix suffix_length_le by blast

lemma seq_cls_shorter:
  assumes "st' \<in> set (matches (Seq (Cls q) r) st)"
  shows "length (rest st') < length (rest st)"
proof -
  from assms obtain s where "s \<in> set (consume q st)" "st' \<in> set (matches r s)"
    by auto
  then show ?thesis
    using consume_shorter matches_length by fastforce
qed

lemma matches_SeqD:
  "st \<in> set (matches (Seq a b) s0) \<Longrightarrow> \<exists>s. s \<in> set (matches a s0) \<and> st \<in> set (matches b s)"
  by auto

lemma matches_GrpD:
  "st \<in> set (matches (Grp n a) s0) \<Longrightarrow>
     \<exists>s. s \<in> set (matches a s0)
        \<and> caps st = (n, take (length (rest s0) - length (rest s)) (rest s0)) # caps s"
  by auto

lemma matches_EolD: "st \<in> set (matches Eol s0) \<Longrightarrow> st = s0"
  by (auto split: if_splits)

lemma name_prefix_capture:
  assumes "exec name_prefix_rx p t = Some st"
  shows "capture (caps st) 2 \<noteq> []"
proof -
  from assms have "st \<in> set (matches name_prefix_rx (MState p t []))"
    by (auto simp: exec_def split: list.splits)
  then obtain X where
    "st \<in> set (matches (Seq Bol (Seq (Grp 1 X)
            (Grp 2 (Seq (Seq (Cls nonspace) (Seq (Cls nonspace) (Star (Cls nonspace)))) Eol))))
          (MState p t []))"
    by (simp only: name_prefix_rx_def TwoOrMore_def)
  then obtain s0 where
    "st \<in> set (matches (Seq (Grp 1 X)
            (Grp 2 (Seq (Seq (Cls nonspace) (Seq (Cls nonspace) (Star (Cls nonspace)))) Eol)))
          s0)"
    using matches_SeqD by blast
  then obtain s1 where
    "st \<in> set (matches
            (Grp 2 (Seq (Seq (Cls nonspace) (Seq (Cls nonspace) (Star (Cls nonspace)))) Eol))
          s1)"
    using matches_SeqD by blast
  then obtain s2 where
    s2: "s2 \<in> set (matches
            (Seq (Seq (Cls nonspace) (Seq (Cls nonspace) (Star (Cls nonspace)))) Eol) s1)"
    and st: "caps st = (2, take (length (rest s1) - length (rest s2)) (rest s1)) # caps s2"
    using matches_GrpD by blast
  from s2 obtain s3 where
    "s3 \<in> set (matches (Seq (Cls nonspace) (Seq (Cls nonspace) (Star (Cls nonspace)))) s1)"
    and "s2 \<in> set (matches Eol s3)"
    using matches_SeqD by blast
  then have
    "s2 \<in> set (matches (Seq (Cls nonspace) (Seq (Cls nonspace) (Star (Cls nonspace)))) s1)"
    using matches_EolD by blast
  then have "length (rest s2) < length (rest s1)"
    by (rule seq_cls_shorter)
  then have "take (length (rest s1) - length (rest s2)) (rest s1) \<noteq> []"
    by auto
  then show ?thesis
    by (simp add: st capture_def)
qed

lemma name_prefix_fixup:
  assumes u: "u \<noteq> []" and o: "\<forall>c\<in>set u. out_char c"
  shows "replace_first name_prefix_rx (\<lambda>m cs. ucFirst (capture cs 1) @ ucFirst (capture cs 2)) u \<noteq> []
       \<and> (\<forall>c\<in>set (replace_first name_prefix_rx
                       (\<lambda>m cs. ucFirst (capture cs 1) @ ucFirst (capture cs 2)) u). out_char c)"
proof
  let ?f = "\<lambda>(m::jsstring) cs. ucFirst (capture cs 1) @ ucFirst (capture cs 2)"
  have "?f m (caps st) \<noteq> []" if "exec name_prefix_rx p t = Some st" for p t st m
    using name_prefix_capture [OF that] ucFirst_nonempty by simp
  with u show "replace_first name_prefix_rx ?f u \<noteq> []"
    unfolding replace_first_def by (intro replace_first_at_nonempty)
  have "set (?f m (caps st)) \<subseteq> Collect out_char"
    if t: "suffix t u" and e: "exec name_prefix_rx p t = Some st" for p t st m
  proof -
    from t o have "set t \<subseteq> Collect out_char"
      using set_mono_suffix by fastforce
    with exec_caps [OF e] have "\<forall>c\<in>set (capture (caps st) n). out_char c" for n
      by blast
    then have "\<forall>c\<in>set (ucFirst (capture (caps st) n)). out_char c" for n
      by (rule ucFirst_out)
    then show ?thesis by auto
  qed
  then have "set (replace_first_at name_prefix_rx ?f None u) \<subseteq> Collect out_char \<union> set u"
    by (rule replace_first_at_set)
  with o show "\<forall>c\<in>set (replace_first name_prefix_rx ?f u). out_char c"
    unfolding replace_first_def by blast
qed

lemma properNameCapitalizer_token:
  assumes w: "w \<noteq> []" and t: "\<forall>c\<in>set w. token_char c"
  shows "properNameCapitalizer mc w \<noteq> [] \<and> (\<forall>c\<in>set (properNameCapitalizer mc w). out_char c)"
proof -
  from t have o: "\<forall>c\<in>set w. out_char c" by (simp add: token_out)
  have up: "toUpperCase w \<noteq> [] \<and> (\<forall>c\<in>set (toUpperCase w). out_char c)"
    using w o toUpperCase_nonempty toUpperCase_out by blast
  have lo: "toLowerCase w \<noteq> [] \<and> (\<forall>c\<in>set (toLowerCase w). out_char c)"
    using w t toLowerCase_token [of w] by (simp add: token_out toLowerCase_def)
  then have "ucFirst (toLowerCase w) \<noteq> [] \<and> (\<forall>c\<in>set (ucFirst (toLowerCase w)). out_char c)"
    using ucFirst_nonempty ucFirst_out by blast
  then have fx: "replace_first name_prefix_rx
                   (\<lambda>m cs. ucFirst (capture cs 1) @ ucFirst (capture cs 2))
                   (ucFirst (toLowerCase w)) \<noteq> []
       \<and> (\<forall>c\<in>set (replace_first name_prefix_rx
                       (\<lambda>m cs. ucFirst (capture cs 1) @ ucFirst (capture cs 2))
                       (ucFirst (toLowerCase w))). out_char c)"
    using name_prefix_fixup by blast
  from w o up lo fx show ?thesis
    unfolding properNameCapitalizer_def Let_def by presburger
qed

lemma ends_with_iff: "ends_with c s \<longleftrightarrow> s \<noteq> [] \<and> last s = c"
  by (cases s rule: rev_cases) (simp_all add: ends_with_def)

lemma starts_with_iff: "starts_with c s \<longleftrightarrow> s \<noteq> [] \<and> hd s = c"
  by (cases s) simp_all

lemma has_pair_notin: "c \<notin> set xs \<Longrightarrow> has_pair c (xs @ ys) = has_pair c ys"
proof (induction xs)
  case Nil
  then show ?case by simp
next
  case (Cons x xs)
  then show ?case
    by (cases xs) (auto simp: has_pair_Cons starts_with_iff)
qed

lemma has_pair_suffix: "has_pair c t \<Longrightarrow> suffix t s \<Longrightarrow> has_pair c s"
  unfolding has_pair_append suffix_def by (metis append.assoc)

lemma ends_with_suffix: "ends_with c t \<Longrightarrow> suffix t s \<Longrightarrow> ends_with c s"
  unfolding ends_with_iff suffix_def by auto

lemma tokens_spaces:
  assumes g: "\<And>w. w \<noteq> [] \<Longrightarrow> \<forall>c\<in>set w. A c \<and> q c \<Longrightarrow> g w \<noteq> [] \<and> c0 \<notin> set (g w)"
  shows "\<forall>c\<in>set s. A c \<Longrightarrow> \<not> has_pair c0 s \<Longrightarrow>
         \<not> has_pair c0 (replace_at (Grp k (Plus (Cls q))) (\<lambda>m cs. g m) p s)
       \<and> (starts_with c0 (replace_at (Grp k (Plus (Cls q))) (\<lambda>m cs. g m) p s)
            \<longrightarrow> starts_with c0 s)
       \<and> (ends_with c0 (replace_at (Grp k (Plus (Cls q))) (\<lambda>m cs. g m) p s)
            \<longrightarrow> ends_with c0 s)
       \<and> (replace_at (Grp k (Plus (Cls q))) (\<lambda>m cs. g m) p s = [] \<longrightarrow> s = [])"
proof (induction "length s" arbitrary: s p rule: less_induct)
  case less
  let ?R = "\<lambda>p s. replace_at (Grp k (Plus (Cls q))) (\<lambda>m cs. g m) p s"
  show ?case
  proof (cases s)
    case Nil
    then show ?thesis by (simp add: exec_token_None)
  next
    case (Cons a as)
    show ?thesis
    proof (cases "q a")
      case True
      let ?w = "a # takeWhile q as"
      let ?t = "dropWhile q as"
      let ?p = "Some ((a # as) ! length (takeWhile q as))"
      have out: "?R p s = g ?w @ ?R ?p ?t"
        unfolding Cons using True by (simp only: replace_at_token if_True)
      have "\<forall>c\<in>set ?w. A c \<and> q c"
        using less.prems(1) True Cons by (auto dest: set_takeWhileD)
      with g [of ?w] have gw: "g ?w \<noteq> []" "c0 \<notin> set (g ?w)" by auto
      have suf: "suffix ?t s"
        unfolding Cons by (simp add: suffix_ConsI suffix_dropWhile)
      have len: "length ?t < length s"
        unfolding Cons using length_dropWhile_le [of q as] by simp
      have At: "\<forall>c\<in>set ?t. A c"
        using less.prems(1) suf set_mono_suffix by blast
      have np: "\<not> has_pair c0 ?t"
        using less.prems(2) suf has_pair_suffix by blast
      have "\<not> has_pair c0 (?R ?p ?t)
            \<and> (starts_with c0 (?R ?p ?t) \<longrightarrow> starts_with c0 ?t)
            \<and> (ends_with c0 (?R ?p ?t) \<longrightarrow> ends_with c0 ?t)
            \<and> (?R ?p ?t = [] \<longrightarrow> ?t = [])"
        by (rule less.hyps [OF len At np])
      then have
        ih: "\<not> has_pair c0 (?R ?p ?t)" "ends_with c0 (?R ?p ?t) \<longrightarrow> ends_with c0 ?t"
        by blast+
      have a: "\<not> has_pair c0 (?R p s)"
        unfolding out using gw(2) ih(1) by (simp add: has_pair_notin)
      have b: "\<not> starts_with c0 (?R p s)"
      proof
        assume "starts_with c0 (?R p s)"
        then have "hd (g ?w) = c0"
          unfolding out starts_with_iff using gw(1) by simp
        then have "c0 \<in> set (g ?w)"
          using gw(1) hd_in_set by blast
        with gw(2) show False by blast
      qed
      have c: "ends_with c0 (?R p s) \<longrightarrow> ends_with c0 s"
      proof
        assume e: "ends_with c0 (?R p s)"
        show "ends_with c0 s"
        proof (cases "?R ?p ?t = []")
          case True
          with e have "g ?w \<noteq> [] \<and> last (g ?w) = c0"
            unfolding out ends_with_iff by simp
          then have "c0 \<in> set (g ?w)"
            using last_in_set by blast
          with gw(2) show ?thesis by blast
        next
          case False
          with e have "ends_with c0 (?R ?p ?t)"
            unfolding out ends_with_iff by simp
          with ih(2) have "ends_with c0 ?t" by blast
          then show ?thesis using suf by (rule ends_with_suffix)
        qed
      qed
      have d: "?R p s \<noteq> []"
        unfolding out using gw(1) by simp
      from a b c d show ?thesis by blast
    next
      case False
      have out: "?R p s = a # ?R (Some a) as"
        unfolding Cons using False by (simp only: replace_at_token if_False)
      have len: "length as < length s" unfolding Cons by simp
      have Aas: "\<forall>c\<in>set as. A c" using less.prems(1) Cons by simp
      have np: "\<not> has_pair c0 as"
        using less.prems(2) unfolding Cons by (simp add: has_pair_Cons)
      have "\<not> has_pair c0 (?R (Some a) as)
            \<and> (starts_with c0 (?R (Some a) as) \<longrightarrow> starts_with c0 as)
            \<and> (ends_with c0 (?R (Some a) as) \<longrightarrow> ends_with c0 as)
            \<and> (?R (Some a) as = [] \<longrightarrow> as = [])"
        by (rule less.hyps [OF len Aas np])
      then have
        ih: "\<not> has_pair c0 (?R (Some a) as)"
            "starts_with c0 (?R (Some a) as) \<longrightarrow> starts_with c0 as"
            "ends_with c0 (?R (Some a) as) \<longrightarrow> ends_with c0 as"
            "?R (Some a) as = [] \<longrightarrow> as = []"
        by blast+
      have np2: "\<not> (a = c0 \<and> starts_with c0 as)"
        using less.prems(2) unfolding Cons by (simp add: has_pair_Cons)
      have a: "\<not> has_pair c0 (?R p s)"
        unfolding out using ih(1,2) np2 by (simp only: has_pair_Cons) blast
      have b: "starts_with c0 (?R p s) \<longrightarrow> starts_with c0 s"
        unfolding out by (simp only: Cons starts_with_Cons simp_thms)
      have c: "ends_with c0 (?R p s) \<longrightarrow> ends_with c0 s"
      proof
        assume "ends_with c0 (?R p s)"
        then have e: "last (a # ?R (Some a) as) = c0"
          unfolding out ends_with_iff by blast
        show "ends_with c0 s"
        proof (cases "?R (Some a) as = []")
          case True
          with ih(4) have "as = []" by blast
          with e True show ?thesis
            unfolding Cons ends_with_iff by simp
        next
          case False
          with e have "ends_with c0 (?R (Some a) as)"
            unfolding ends_with_iff by simp
          with ih(3) have "ends_with c0 as" by blast
          then show ?thesis
            unfolding Cons ends_with_iff by simp
        qed
      qed
      have d: "?R p s \<noteq> []"
        unfolding out by blast
      from a b c d show ?thesis by blast
    qed
  qed
qed

lemma tokens_chars:
  assumes g: "\<And>w. w \<noteq> [] \<Longrightarrow> \<forall>c\<in>set w. A c \<and> q c \<Longrightarrow> \<forall>c\<in>set (g w). B c"
    and sep: "\<And>c. A c \<Longrightarrow> \<not> q c \<Longrightarrow> B c"
  shows "\<forall>c\<in>set s. A c \<Longrightarrow>
         \<forall>c\<in>set (replace_at (Grp k (Plus (Cls q))) (\<lambda>m cs. g m) p s). B c"
proof (induction "length s" arbitrary: s p rule: less_induct)
  case less
  let ?R = "\<lambda>p s. replace_at (Grp k (Plus (Cls q))) (\<lambda>m cs. g m) p s"
  show ?case
  proof (cases s)
    case Nil
    then show ?thesis by (simp add: exec_token_None)
  next
    case (Cons a as)
    show ?thesis
    proof (cases "q a")
      case True
      let ?w = "a # takeWhile q as"
      let ?t = "dropWhile q as"
      let ?p = "Some ((a # as) ! length (takeWhile q as))"
      have out: "?R p s = g ?w @ ?R ?p ?t"
        unfolding Cons using True by (simp only: replace_at_token if_True)
      have "\<forall>c\<in>set ?w. A c \<and> q c"
        using less.prems True Cons by (auto dest: set_takeWhileD)
      with g [of ?w] have gw: "\<forall>c\<in>set (g ?w). B c" by simp
      have len: "length ?t < length s"
        unfolding Cons using length_dropWhile_le [of q as] by simp
      have At: "\<forall>c\<in>set ?t. A c"
        using less.prems Cons by (auto dest: set_dropWhileD)
      from less.hyps [OF len At, of ?p] gw show ?thesis
        unfolding out by auto
    next
      case False
      have out: "?R p s = a # ?R (Some a) as"
        unfolding Cons using False by (simp only: replace_at_token if_False)
      have len: "length as < length s" unfolding Cons by simp
      have Aas: "\<forall>c\<in>set as. A c" using less.prems Cons by simp
      have "B a" using less.prems Cons False sep by simp
      with less.hyps [OF len Aas, of "Some a"] show ?thesis
        unfolding out by simp
    qed
  qed
qed


lemma trim_set: "set (trim s) \<subseteq> set s"
  unfolding trim_def by (auto dest!: set_dropWhileD)

lemma trim_decomp: "\<exists>a b. s = a @ trim s @ b"
proof -
  let ?m = "dropWhile is_space s"
  have "trim s @ rev (takeWhile is_space (rev ?m))
          = rev (takeWhile is_space (rev ?m) @ dropWhile is_space (rev ?m))"
    by (simp only: trim_def rev_append)
  also have "\<dots> = rev (rev ?m)"
    by (simp only: takeWhile_dropWhile_id)
  also have "\<dots> = ?m" by (rule rev_rev_ident)
  finally have "?m = trim s @ rev (takeWhile is_space (rev ?m))" by (rule sym)
  moreover have "s = takeWhile is_space s @ ?m" by simp
  ultimately show ?thesis by metis
qed

lemma trim_no_pair: "\<not> has_pair c s \<Longrightarrow> \<not> has_pair c (trim s)"
proof
  assume n: "\<not> has_pair c s" and "has_pair c (trim s)"
  then obtain xs ys where t: "trim s = xs @ c # c # ys"
    unfolding has_pair_append by blast
  obtain a b where "s = a @ trim s @ b" using trim_decomp by blast
  then have "s = (a @ xs) @ c # c # (ys @ b)" by (simp add: t)
  then have "has_pair c s" unfolding has_pair_append by blast
  with n show False by blast
qed

lemma trim_ends: "is_space c \<Longrightarrow> \<not> ends_with c (trim s)"
proof
  assume c: "is_space c" and "ends_with c (trim s)"
  then have "starts_with c (dropWhile is_space (rev (dropWhile is_space s)))"
    by (simp add: ends_with_def trim_def)
  then have "dropWhile is_space (rev (dropWhile is_space s)) \<noteq> []
           \<and> hd (dropWhile is_space (rev (dropWhile is_space s))) = c"
    unfolding starts_with_iff .
  then have "\<not> is_space c"
    using hd_dropWhile by blast
  with c show False by blast
qed

lemma last_dropWhile: "dropWhile P xs \<noteq> [] \<Longrightarrow> last (dropWhile P xs) = last xs"
  by (metis last_appendR takeWhile_dropWhile_id)

lemma trim_starts: "is_space c \<Longrightarrow> \<not> starts_with c (trim s)"
proof
  let ?m = "dropWhile is_space s"
  let ?x = "dropWhile is_space (rev ?m)"
  assume c: "is_space c" and "starts_with c (trim s)"
  then have x: "?x \<noteq> []" and h: "hd (rev ?x) = c"
    unfolding starts_with_iff trim_def by auto
  have m: "?m \<noteq> []"
  proof
    assume e: "?m = []"
    have "?x = []" unfolding e by simp
    with x show False by blast
  qed
  from x have "hd (rev ?x) = last ?x" by (simp add: hd_rev)
  also from x have "\<dots> = last (rev ?m)" by (rule last_dropWhile)
  also from m have "\<dots> = hd ?m" by (simp add: last_rev)
  finally have "hd ?m = c" using h by simp
  moreover from m have "\<not> is_space (hd ?m)" by (rule hd_dropWhile)
  ultimately show False using c by blast
qed

lemma restrict_map:
  "replace (Cls (\<lambda>c. \<not> name_char c)) (template [Lit space]) v
     = map (\<lambda>c. if name_char c then c else space) v"
  by (simp add: replace_def replace_at_Cls)

lemma name_char_space: "name_char space"
  by (simp add: name_char_def)

lemma collapse_replace_no_pair:
  "\<not> has_pair c (replace (Seq (Chr c) (Plus (Chr c))) (template [Lit c]) t)"
  using collapse_no_pair [of c None t] by (simp add: replace_def)

lemma prepared_props:
  "(\<forall>c\<in>set (prepared v). name_char c) \<and> \<not> has_pair space (prepared v)
   \<and> \<not> starts_with space (prepared v) \<and> \<not> ends_with space (prepared v)"
proof (intro conjI)
  let ?t1 = "replace (Cls (\<lambda>c. \<not> name_char c)) (template [Lit space]) v"
  let ?t2 = "replace (Seq (Chr space) (Plus (Chr space))) (template [Lit space]) ?t1"
  have 1: "\<forall>c\<in>set ?t1. name_char c"
    unfolding restrict_map by (auto simp: name_char_space)
  have "set ?t2 \<subseteq> insert space (set ?t1)"
    by (rule replace_const_set)
  with 1 have 2: "\<forall>c\<in>set ?t2. name_char c"
    using name_char_space by blast
  have "set (prepared v) \<subseteq> set ?t2"
    unfolding prepared_def by (rule trim_set)
  with 2 show "\<forall>c\<in>set (prepared v). name_char c" by blast
  have "\<not> has_pair space ?t2" by (rule collapse_replace_no_pair)
  then show "\<not> has_pair space (prepared v)"
    unfolding prepared_def by (rule trim_no_pair)
  have sp: "is_space space" by (simp add: is_space_def space_def)
  from sp show "\<not> starts_with space (prepared v)"
    unfolding prepared_def by (rule trim_starts)
  from sp show "\<not> ends_with space (prepared v)"
    unfolding prepared_def by (rule trim_ends)
qed

lemma out_char_not_space: "out_char c \<Longrightarrow> c \<noteq> space"
  by (auto simp: out_char_def token_char_def not_in_def space_def)

lemma capitalizer_on_token:
  assumes "w \<noteq> []" and "\<forall>c\<in>set w. name_char c \<and> not_in [space, comma, hyphen] c"
  shows "properNameCapitalizer mc w \<noteq> [] \<and> space \<notin> set (properNameCapitalizer mc w)"
proof -
  from assms(2) have "\<forall>c\<in>set w. token_char c" by (simp add: token_char_def)
  with assms(1) have "properNameCapitalizer mc w \<noteq> []
       \<and> (\<forall>c\<in>set (properNameCapitalizer mc w). out_char c)"
    by (rule properNameCapitalizer_token)
  then show ?thesis using out_char_not_space by blast
qed

lemma final_char:
  "out_char c \<or> c = space \<or> c = comma \<or> c = hyphen \<Longrightarrow>
     letter c \<or> is_digit c \<or> c = rsquo \<or> c = space \<or> c = comma \<or> c = hyphen
     \<or> c = 215 \<or> c = 247"
  by (auto simp: out_char_def token_char_def name_char_def letter_def)

section \<open>The output of \<open>proper\<close>\<close>



lemma proper_a_b: "proper (js ''a.b'') = js ''A B''"
  by (simp add: proper_defs)

lemma proper_3x4: "proper (js ''3'' @ [215] @ js ''4'') = js ''3'' @ [215] @ js ''4''"
  by (simp add: proper_defs)

text \<open>
  C6, as the code has it. Every code unit of the output of \<open>proper\<close> is a letter, a
  digit, U+2019, a space, a comma, a hyphen, or one of the two signs U+00D7 and U+00F7,
  which lie in the range from U+00C0 to U+00FF that the restriction keeps; the restriction
  replaces every code unit outside its class by a space, before the tokens are cut.
\<close>

theorem proper_charset:
  "(\<forall>c\<in>set (proper v). letter c \<or> is_digit c \<or> c = rsquo \<or> c = space \<or> c = comma
        \<or> c = hyphen \<or> c = 215 \<or> c = 247)
   \<and> replace (Cls (\<lambda>c. \<not> name_char c)) (template [Lit space]) v
       = map (\<lambda>c. if name_char c then c else space) v"
proof
  let ?g = "properNameCapitalizer (hasBothUpperAndLower v)"
  let ?B = "\<lambda>c. out_char c \<or> c = space \<or> c = comma \<or> c = hyphen"
  have "\<forall>c\<in>set (proper v). ?B c"
    unfolding proper_prepared replace_def
  proof (rule tokens_chars [where A = name_char and g = ?g and B = ?B])
    show "\<forall>c\<in>set (?g w). ?B c"
      if "w \<noteq> []" "\<forall>c\<in>set w. name_char c \<and> not_in [space, comma, hyphen] c" for w
    proof -
      from that(2) have "\<forall>c\<in>set w. token_char c" by (simp add: token_char_def)
      with that(1) show ?thesis
        using properNameCapitalizer_token by blast
    qed
    show "?B c" if "name_char c" "\<not> not_in [space, comma, hyphen] c" for c
      using that by (auto simp: not_in_def)
    show "\<forall>c\<in>set (prepared v). name_char c"
      using prepared_props by blast
  qed
  then show "\<forall>c\<in>set (proper v). letter c \<or> is_digit c \<or> c = rsquo \<or> c = space \<or> c = comma
        \<or> c = hyphen \<or> c = 215 \<or> c = 247"
    using final_char by blast
  show "replace (Cls (\<lambda>c. \<not> name_char c)) (template [Lit space]) v
       = map (\<lambda>c. if name_char c then c else space) v"
    by (rule restrict_map)
qed

theorem proper_charset_witness:
  "65 \<in> set (proper (js ''a.b'')) \<and> letter 65"
proof -
  have m: "65 \<in> set (proper (js ''a.b''))"
    unfolding proper_a_b by (simp add: js_def)
  with proper_charset [of "js ''a.b''"]
  have "letter 65 \<or> is_digit 65 \<or> 65 = rsquo \<or> 65 = space \<or> 65 = comma \<or> 65 = hyphen
        \<or> (65::nat) = 215 \<or> (65::nat) = 247"
    by blast
  then have "letter 65"
    by (simp add: is_digit_def char_defs)
  with m show ?thesis by blast
qed

text \<open>
  With the letters alone the claim fails: the multiplication sign of \<open>3\<dots>4\<close> is kept,
  and it is neither a letter nor any other member of the set the specification names.
\<close>

theorem proper_charset_counterexample:
  "proper (js ''3'' @ [215] @ js ''4'') = js ''3'' @ [215] @ js ''4''
   \<and> 215 \<in> set (js ''3'' @ [215] @ js ''4'')
   \<and> \<not> letter 215 \<and> \<not> is_digit 215
   \<and> 215 \<noteq> rsquo \<and> 215 \<noteq> space \<and> 215 \<noteq> comma \<and> 215 \<noteq> hyphen"
  unfolding proper_3x4
  by (simp add: letter_def is_upper_def is_lower_def is_digit_def char_defs)

section \<open>A second run of \<open>quotes\<close>\<close>

lemma map_of_filter_other:
  "n \<notin> set ns \<Longrightarrow> map_of (filter (\<lambda>(k, _). k \<notin> set ns) xs) n = map_of xs n"
  by (induction xs) auto

lemma forget_other: "n \<notin> set ns \<Longrightarrow> map_of (caps (forget ns st)) n = map_of (caps st) n"
  by (simp add: forget_def map_of_filter_other)

lemma consume_caps: "st' \<in> set (consume q st) \<Longrightarrow> caps st' = caps st"
  by (cases "rest st") (auto simp: consume_def split: if_splits)

lemma star_caps_other:
  assumes m: "\<And>s s'. s' \<in> set (m s) \<Longrightarrow> map_of (caps s') n = map_of (caps s) n"
  shows "st' \<in> set (star k m st) \<Longrightarrow> map_of (caps st') n = map_of (caps st) n"
proof (induction k arbitrary: st)
  case 0
  then show ?case by simp
next
  case (Suc k)
  from Suc.prems consider "st' = st"
    | s where "s \<in> set (m st)" "st' \<in> set (star k m s)"
    by (auto split: if_splits)
  then show ?case
  proof cases
    case 1
    then show ?thesis by simp
  next
    case 2
    from 2(2) have "map_of (caps st') n = map_of (caps s) n" by (rule Suc.IH)
    also from 2(1) have "\<dots> = map_of (caps st) n" by (rule m)
    finally show ?thesis .
  qed
qed

lemma matches_caps_other:
  "st' \<in> set (matches r st) \<Longrightarrow> n \<notin> set (groups r)
     \<Longrightarrow> map_of (caps st') n = map_of (caps st) n"
proof (induction r arbitrary: st st')
  case (Chr c)
  then show ?case by (simp add: consume_caps)
next
  case (Cls q)
  then show ?case by (simp add: consume_caps)
next
  case (Seq a b)
  from Seq.prems(1) obtain s where s: "s \<in> set (matches a st)" "st' \<in> set (matches b s)"
    by auto
  from Seq.prems(2) have n: "n \<notin> set (groups a)" "n \<notin> set (groups b)" by simp_all
  from s(2) n(2) have "map_of (caps st') n = map_of (caps s) n" by (rule Seq.IH(2))
  also from s(1) n(1) have "\<dots> = map_of (caps st) n" by (rule Seq.IH(1))
  finally show ?case .
next
  case (Alt a b)
  from Alt.prems(1) consider "st' \<in> set (matches a st)" | "st' \<in> set (matches b st)"
    by auto
  then show ?case
  proof cases
    case 1
    moreover from Alt.prems(2) have "n \<notin> set (groups a)" by simp
    ultimately show ?thesis by (rule Alt.IH(1))
  next
    case 2
    moreover from Alt.prems(2) have "n \<notin> set (groups b)" by simp
    ultimately show ?thesis by (rule Alt.IH(2))
  qed
next
  case (Star a)
  from Star.prems(2) have n: "n \<notin> set (groups a)" by simp
  have step: "map_of (caps s') n = map_of (caps s) n"
    if "s' \<in> set (matches a (forget (groups a) s))" for s s'
  proof -
    from that n have "map_of (caps s') n = map_of (caps (forget (groups a) s)) n"
      by (rule Star.IH)
    also from n have "\<dots> = map_of (caps s) n" by (rule forget_other)
    finally show ?thesis .
  qed
  from Star.prems(1) have
    "st' \<in> set (star (length (rest st)) (\<lambda>s. matches a (forget (groups a) s)) st)"
    by simp
  with step show ?case
    by (rule star_caps_other [where m = "\<lambda>s. matches a (forget (groups a) s)"])
next
  case (Opt a)
  from Opt.prems(2) have n: "n \<notin> set (groups a)" by simp
  from Opt.prems(1) consider "st' = st" | "st' \<in> set (matches a (forget (groups a) st))"
    by auto
  then show ?case
  proof cases
    case 1
    then show ?thesis by simp
  next
    case 2
    from 2 n have "map_of (caps st') n = map_of (caps (forget (groups a) st)) n"
      by (rule Opt.IH)
    also from n have "\<dots> = map_of (caps st) n" by (rule forget_other)
    finally show ?thesis .
  qed
next
  case (Grp k a)
  from Grp.prems(1) obtain s where s: "s \<in> set (matches a st)"
    and c: "caps st' = (k, take (length (rest st) - length (rest s)) (rest st)) # caps s"
    using matches_GrpD by blast
  from Grp.prems(2) have n: "n \<noteq> k" "n \<notin> set (groups a)" by simp_all
  from n(1) have "map_of (caps st') n = map_of (caps s) n" by (simp add: c)
  also from s n(2) have "\<dots> = map_of (caps st) n" by (rule Grp.IH)
  finally show ?case .
next
  case (Ahead a)
  from Ahead.prems(1) obtain s tl where m: "matches a st = s # tl"
    and st': "st' = MState (prev st) (rest st) (caps s)"
    by (cases "matches a st") auto
  from m have "s \<in> set (matches a st)" by simp
  moreover from Ahead.prems(2) have "n \<notin> set (groups a)" by simp
  ultimately have "map_of (caps s) n = map_of (caps st) n" by (rule Ahead.IH)
  then show ?case by (simp add: st')
qed (auto split: if_splits)

lemma suffix_take: "suffix t s \<Longrightarrow> s = take (length s - length t) s @ t"
  by (auto simp: suffix_def)

lemma matches_Grp_capture:
  assumes "st' \<in> set (matches (Grp n a) st)"
  shows "capture (caps st') n = take (length (rest st) - length (rest st')) (rest st)
       \<and> rest st = take (length (rest st) - length (rest st')) (rest st) @ rest st'"
proof
  from assms show
    "capture (caps st') n = take (length (rest st) - length (rest st')) (rest st)"
    by (auto simp: capture_def)
  from assms have "suffix (rest st') (rest st)" by (rule matches_suffix)
  then show "rest st = take (length (rest st) - length (rest st')) (rest st) @ rest st'"
    by (rule suffix_take)
qed

lemma matches_Grp_Chr:
  "st' \<in> set (matches (Grp n (Chr c)) st) \<Longrightarrow> rest st = c # rest st'"
  by (cases "rest st") (auto simp: consume_def split: if_splits)

lemma capture_cong: "map_of cs n = map_of cs' n \<Longrightarrow> capture cs n = capture cs' n"
  by (simp add: capture_def)


lemma requoted_refl: "requoted c c"
  by (simp add: requoted_def)

lemma list_all2_requoted_refl: "list_all2 requoted xs xs"
  by (simp add: list_all2_refl requoted_refl)

lemma replace_at_rel:
  assumes f: "\<And>p t st. exec r p t = Some st \<Longrightarrow>
                list_all2 R (take (length t - length (rest st)) t)
                            (f (take (length t - length (rest st)) t) (caps st))"
    and refl: "\<And>c. R c c"
  shows "list_all2 R s (replace_at r f p s)"
proof (induction "length s" arbitrary: s p rule: less_induct)
  case less
  show ?case
  proof (cases s)
    case Nil
    show ?thesis
    proof (cases "exec r p []")
      case None
      with Nil show ?thesis by simp
    next
      case (Some st)
      from f [OF Some] have "f [] (caps st) = []" by simp
      with Nil Some show ?thesis by simp
    qed
  next
    case (Cons c cs)
    have tail: "list_all2 R cs (replace_at r f (Some c) cs)"
      by (rule less) (simp add: Cons)
    show ?thesis
    proof (cases "exec r p (c # cs)")
      case None
      with Cons tail refl show ?thesis by simp
    next
      case (Some st)
      let ?n = "length (c # cs) - length (rest st)"
      note m = f [OF Some]
      show ?thesis
      proof (cases "?n = 0")
        case True
        with m have "f [] (caps st) = []" by simp
        with Cons Some True tail refl show ?thesis by (simp add: Let_def)
      next
        case False
        let ?d = "drop (?n - 1) cs"
        have "length ?d < length s" by (simp add: Cons)
        then have "list_all2 R ?d (replace_at r f (Some ((c # cs) ! (?n - 1))) ?d)"
          by (rule less)
        with m have
          "list_all2 R (take ?n (c # cs) @ ?d)
             (f (take ?n (c # cs)) (caps st)
                @ replace_at r f (Some ((c # cs) ! (?n - 1))) ?d)"
          by (rule list_all2_appendI)
        moreover from False have "take ?n (c # cs) @ ?d = c # cs"
          by (cases ?n) simp_all
        ultimately have
          "list_all2 R (c # cs)
             (f (take ?n (c # cs)) (caps st)
                @ replace_at r f (Some ((c # cs) ! (?n - 1))) ?d)"
          by simp
        with Cons Some False show ?thesis by (simp add: Let_def)
      qed
    qed
  qed
qed

lemma template_Nil: "template [] m cs = []"
  by (simp add: template_def)

lemma template_Cons_Lit: "template (Lit c # ts) m cs = c # template ts m cs"
  by (simp add: template_def)

lemma template_Cons_Ref: "template (Ref n # ts) m cs = capture cs n @ template ts m cs"
  by (simp add: template_def)

lemma take_consumed: "t = m @ r \<Longrightarrow> take (length t - length r) t = m"
  by simp

lemma matches_AheadD: "st \<in> set (matches (Ahead a) s) \<Longrightarrow> rest st = rest s"
  by (cases "matches a s") auto

lemma matches_ChrD: "st' \<in> set (matches (Chr c) st) \<Longrightarrow> rest st = c # rest st'"
  by (cases "rest st") (auto simp: consume_def split: if_splits)

lemma matches_Grp_rest:
  "st \<in> set (matches (Grp n a) s0) \<Longrightarrow>
     \<exists>s\<in>set (matches a s0). rest st = rest s
        \<and> caps st = (n, take (length (rest s0) - length (rest s)) (rest s0)) # caps s"
  by auto

lemma abbrev_years_match:
  assumes "exec (fst rule_abbrev_years) p t = Some st"
  shows "list_all2 requoted (take (length t - length (rest st)) t)
           (snd rule_abbrev_years (take (length t - length (rest st)) t) (caps st))"
proof -
  let ?A = "Seq (Twice (Cls is_digit)) (Star (Cls (not_in [rsquo])))"
  let ?B = "Alt (Seq (Chr lsquo) (Grp 4 (Alt (Cls nondigit) Eol)))
                (Alt Eol (Seq (Chr rsquo) (Cls is_alpha)))"
  let ?st0 = "MState p t []"
  from assms have "st \<in> set (matches (fst rule_abbrev_years) ?st0)"
    by (auto simp: exec_def split: list.splits)
  then have "st \<in> set (matches (Seq (Grp 1 (Chr lsquo)) (Seq (Grp 2 ?A) (Grp 3 ?B))) ?st0)"
    by (simp only: rule_abbrev_years_def fst_conv)
  then obtain s1 where s1: "s1 \<in> set (matches (Grp 1 (Chr lsquo)) ?st0)"
    and "st \<in> set (matches (Seq (Grp 2 ?A) (Grp 3 ?B)) s1)"
    using matches_SeqD by blast
  then obtain s2 where s2: "s2 \<in> set (matches (Grp 2 ?A) s1)"
    and s3: "st \<in> set (matches (Grp 3 ?B) s2)"
    using matches_SeqD by blast
  let ?c2 = "take (length (rest s1) - length (rest s2)) (rest s1)"
  let ?c3 = "take (length (rest s2) - length (rest st)) (rest s2)"
  from matches_Grp_Chr [OF s1] have r0: "t = lsquo # rest s1"
    by (simp only: mstate.sel)
  from matches_Grp_capture [OF s2] have c2: "capture (caps s2) 2 = ?c2"
    and r1: "rest s1 = ?c2 @ rest s2" by blast+
  from matches_Grp_capture [OF s3] have c3: "capture (caps st) 3 = ?c3"
    and r2: "rest s2 = ?c3 @ rest st" by blast+
  have "2 \<notin> set (groups (Grp 3 ?B))" by simp
  with s3 have "map_of (caps st) 2 = map_of (caps s2) 2"
    by (rule matches_caps_other)
  then have "capture (caps st) 2 = capture (caps s2) 2"
    by (rule capture_cong)
  with c2 have c2': "capture (caps st) 2 = ?c2" by simp
  have "rest s1 = (?c2 @ ?c3) @ rest st"
    by (subst r1, subst r2) (simp only: append_assoc)
  with r0 have "t = (lsquo # ?c2 @ ?c3) @ rest st"
    by (simp only: append_Cons)
  then have tk: "take (length t - length (rest st)) t = lsquo # ?c2 @ ?c3"
    by (rule take_consumed)
  have out: "snd rule_abbrev_years m (caps st) = rsquo # ?c2 @ ?c3" for m
    by (simp only: rule_abbrev_years_def snd_conv template_Cons_Lit template_Cons_Ref
                   template_Nil c2' c3 append_Nil2)
  have "list_all2 requoted (lsquo # ?c2 @ ?c3) (rsquo # ?c2 @ ?c3)"
    by (simp only: list_all2_Cons requoted_def list_all2_requoted_refl simp_thms)
  then show ?thesis
    by (simp only: tk out)
qed

lemma zero_width: "st' \<in> set (matches (Alt NotWordB Bol) st) \<Longrightarrow> st' = st"
  by (auto split: if_splits)

lemma backwards_match:
  assumes "exec (fst rule_backwards_apostrophe) p t = Some st"
  shows "list_all2 requoted (take (length t - length (rest st)) t)
           (snd rule_backwards_apostrophe (take (length t - length (rest st)) t) (caps st))"
proof -
  let ?L = "Seq (Star (Grp 2 (Seq (Star (Cls (not_in [lsquo, rsquo])))
                                  (Seq (Chr rsquo) WordB))))
                (Grp 3 (Alt (Seq (Star (Cls (not_in [lsquo, rsquo])))
                              (Seq NotWordB (Seq (Cls nonword)
                                (Seq (Cls (one_of [lsquo, rsquo])) WordB))))
                            (Seq (Star (Cls (not_in [lsquo, rsquo]))) Eol)))"
  let ?st0 = "MState p t []"
  from assms have "st \<in> set (matches (fst rule_backwards_apostrophe) ?st0)"
    by (auto simp: exec_def split: list.splits)
  then have "st \<in> set (matches (Seq (Grp 1 (Alt NotWordB Bol))
                                    (Seq (Chr lsquo) (Ahead ?L))) ?st0)"
    by (simp only: rule_backwards_apostrophe_def fst_conv)
  then obtain s1 where s1: "s1 \<in> set (matches (Grp 1 (Alt NotWordB Bol)) ?st0)"
    and s23: "st \<in> set (matches (Seq (Chr lsquo) (Ahead ?L)) s1)"
    using matches_SeqD by blast
  from matches_Grp_rest [OF s1] obtain s0 where s0: "s0 \<in> set (matches (Alt NotWordB Bol) ?st0)"
    and rs: "rest s1 = rest s0"
    and cs: "caps s1 = (1, take (length (rest ?st0) - length (rest s0)) (rest ?st0)) # caps s0"
    by blast
  from s0 have z: "s0 = ?st0" by (rule zero_width)
  have c1: "capture (caps s1) 1 = []"
    unfolding cs z by (simp add: capture_def)
  from rs z have r0: "rest s1 = t" by simp
  have "1 \<notin> set (groups (Seq (Chr lsquo) (Ahead ?L)))" by simp
  with s23 have "map_of (caps st) 1 = map_of (caps s1) 1"
    by (rule matches_caps_other)
  then have "capture (caps st) 1 = capture (caps s1) 1"
    by (rule capture_cong)
  with c1 have c1': "capture (caps st) 1 = []" by (simp only:)
  from s23 obtain s2 where s2: "s2 \<in> set (matches (Chr lsquo) s1)"
    and s3: "st \<in> set (matches (Ahead ?L) s2)"
    using matches_SeqD by blast
  from s3 have "rest st = rest s2" by (rule matches_AheadD)
  moreover from s2 have "rest s1 = lsquo # rest s2" by (rule matches_ChrD)
  ultimately have "t = [lsquo] @ rest st" using r0 by simp
  then have tk: "take (length t - length (rest st)) t = [lsquo]"
    by (rule take_consumed)
  have out: "snd rule_backwards_apostrophe m (caps st) = [rsquo]" for m
    by (simp only: rule_backwards_apostrophe_def snd_conv template_Cons_Lit
                   template_Cons_Ref template_Nil c1' append_Nil)
  have "list_all2 requoted [lsquo] [rsquo]"
    by (simp add: requoted_def)
  then show ?thesis
    by (simp only: tk out)
qed


lemma apply_rule_replace_at: "apply_rule rl s = replace_at (fst rl) (snd rl) None s"
  by (cases rl) (simp add: apply_rule_def replace_def)

lemma apply_abbrev_years_rel: "list_all2 requoted u (apply_rule rule_abbrev_years u)"
  unfolding apply_rule_replace_at
  by (rule replace_at_rel) (erule abbrev_years_match, rule requoted_refl)

lemma apply_backwards_rel: "list_all2 requoted u (apply_rule rule_backwards_apostrophe u)"
  unfolding apply_rule_replace_at
  by (rule replace_at_rel) (erule backwards_match, rule requoted_refl)

lemma requoted_trans: "requoted a b \<Longrightarrow> requoted b c \<Longrightarrow> requoted a c"
  by (auto simp: requoted_def char_defs)

lemma list_all2_requoted_trans:
  "list_all2 requoted xs ys \<Longrightarrow> list_all2 requoted ys zs \<Longrightarrow> list_all2 requoted xs zs"
  using list_all2_trans [of requoted requoted requoted] requoted_trans by blast

lemma requoted_notin:
  "list_all2 requoted xs ys \<Longrightarrow> c \<noteq> rsquo \<Longrightarrow> c \<notin> set xs \<Longrightarrow> c \<notin> set ys"
  by (induction rule: list_all2_induct) (auto simp: requoted_def)

lemma requoted_starts:
  "list_all2 requoted xs ys \<Longrightarrow> c \<noteq> rsquo \<Longrightarrow> starts_with c ys \<Longrightarrow> starts_with c xs"
  by (cases xs; cases ys) (auto simp: requoted_def)

lemma requoted_no_pair:
  "list_all2 requoted xs ys \<Longrightarrow> c \<noteq> rsquo \<Longrightarrow> \<not> has_pair c xs \<Longrightarrow> \<not> has_pair c ys"
proof (induction rule: list_all2_induct)
  case Nil
  then show ?case by simp
next
  case (Cons x xs y ys)
  from Cons.prems have nx: "\<not> (x = c \<and> starts_with c xs)" and np: "\<not> has_pair c xs"
    by (simp_all add: has_pair_Cons)
  from Cons.IH Cons.prems(1) np have 1: "\<not> has_pair c ys" by blast
  have 2: "\<not> (y = c \<and> starts_with c ys)"
  proof
    assume a: "y = c \<and> starts_with c ys"
    with Cons.hyps(1) Cons.prems(1) have "x = c" by (auto simp: requoted_def)
    moreover from a Cons.hyps(2) Cons.prems(1) have "starts_with c xs"
      using requoted_starts by blast
    ultimately show False using nx by blast
  qed
  from 1 2 show ?case by (simp add: has_pair_Cons)
qed

lemma requoted_same:
  "list_all2 requoted xs ys \<Longrightarrow> lsquo \<notin> set xs \<Longrightarrow> ys = xs"
  by (induction rule: list_all2_induct) (auto simp: requoted_def)

lemma quotes_second_run:
  assumes a: "apos \<notin> set t" and d: "dquote \<notin> set t"
    and h: "\<not> has_pair hyphen t" and e: "\<not> has_pair period t"
  shows "list_all2 requoted t (quotes t)"
proof -
  let ?u1 = "apply_rule rule_abbrev_years t"
  let ?u2 = "apply_rule rule_backwards_apostrophe ?u1"
  have r1: "list_all2 requoted t ?u1" by (rule apply_abbrev_years_rel)
  have r2: "list_all2 requoted ?u1 ?u2" by (rule apply_backwards_rel)
  from r1 r2 have r: "list_all2 requoted t ?u2" by (rule list_all2_requoted_trans)
  have ne: "apos \<noteq> rsquo" "dquote \<noteq> rsquo" "hyphen \<noteq> rsquo" "period \<noteq> rsquo"
    by (simp_all add: char_defs)
  from r1 ne(1) a have a1: "apos \<notin> set ?u1" by (rule requoted_notin)
  from r ne(1) a have a2: "apos \<notin> set ?u2" by (rule requoted_notin)
  from r ne(2) d have d2: "dquote \<notin> set ?u2" by (rule requoted_notin)
  from r ne(3) h have h2: "\<not> has_pair hyphen ?u2" by (rule requoted_no_pair)
  from r ne(4) e have e2: "\<not> has_pair period ?u2" by (rule requoted_no_pair)
  have "quotes t =
          apply_rule rule_ellipsis (apply_rule rule_emdash (apply_rule rule_prime
            (apply_rule rule_double_prime (apply_rule rule_backwards_apostrophe
              (apply_rule rule_ending_squote ?u1)))))"
    using a d by (simp add: quotes_steps quote_rules_def rule_id(1-7))
  also have "apply_rule rule_ending_squote ?u1 = ?u1"
    using a1 by (rule rule_id(9))
  also have "apply_rule rule_double_prime ?u2 = ?u2"
    using d2 by (rule rule_id(11))
  also have "apply_rule rule_prime ?u2 = ?u2"
    using a2 by (rule rule_id(12))
  also have "apply_rule rule_emdash ?u2 = ?u2"
    using h2 by (rule apply_emdash_id)
  also have "apply_rule rule_ellipsis ?u2 = ?u2"
    using e2 by (rule apply_ellipsis_id)
  finally have "quotes t = ?u2" .
  with r show ?thesis by simp
qed

text \<open>
  C3, as the code has it. When the output of \<open>quotes\<close> holds no straight quote, no
  \<open>--\<close> and no \<open>..\<close>, a second run keeps its length and alters no code unit of it
  but U+2018, which it may turn into U+2019: U+2019, U+201C, U+201D and all the rest
  stay as they are. An output without U+2018 is returned unchanged.
\<close>

theorem quotes_twice:
  "apos \<notin> set (quotes s) \<and> dquote \<notin> set (quotes s)
   \<and> \<not> has_pair hyphen (quotes s) \<and> \<not> has_pair period (quotes s)
   \<longrightarrow> list_all2 requoted (quotes s) (quotes (quotes s))
       \<and> (lsquo \<notin> set (quotes s) \<longrightarrow> quotes (quotes s) = quotes s)"
proof (intro impI conjI)
  assume h: "apos \<notin> set (quotes s) \<and> dquote \<notin> set (quotes s)
     \<and> \<not> has_pair hyphen (quotes s) \<and> \<not> has_pair period (quotes s)"
  then show r: "list_all2 requoted (quotes s) (quotes (quotes s))"
    by (simp add: quotes_second_run)
  assume "lsquo \<notin> set (quotes s)"
  with r show "quotes (quotes s) = quotes s"
    by (rule requoted_same)
qed

lemma quotes_hello:
  "quotes ([apos] @ js ''hello'' @ [apos]) = [lsquo] @ js ''hello'' @ [rsquo]"
  by (simp add: quotes_defs)

theorem quotes_twice_witness:
  "apos \<notin> set (quotes ([apos] @ js ''hello'' @ [apos]))
   \<and> dquote \<notin> set (quotes ([apos] @ js ''hello'' @ [apos]))
   \<and> \<not> has_pair hyphen (quotes ([apos] @ js ''hello'' @ [apos]))
   \<and> \<not> has_pair period (quotes ([apos] @ js ''hello'' @ [apos]))
   \<and> list_all2 requoted (quotes ([apos] @ js ''hello'' @ [apos]))
        (quotes (quotes ([apos] @ js ''hello'' @ [apos])))"
proof -
  have h: "apos \<notin> set ([lsquo] @ js ''hello'' @ [rsquo])
           \<and> dquote \<notin> set ([lsquo] @ js ''hello'' @ [rsquo])
           \<and> \<not> has_pair hyphen ([lsquo] @ js ''hello'' @ [rsquo])
           \<and> \<not> has_pair period ([lsquo] @ js ''hello'' @ [rsquo])"
    by (simp add: js_def char_defs)
  from quotes_twice [of "[apos] @ js ''hello'' @ [apos]"] h
  show ?thesis unfolding quotes_hello by blast
qed

text \<open>
  A second run does change the output for the plain input \<open>'a 'a\<close>: the first run
  leaves U+2018 in front, the second turns it into U+2019.
\<close>

lemma quotes_a_a:
  "quotes ([apos] @ js ''a '' @ [apos] @ js ''a'') = [lsquo] @ js ''a '' @ [rsquo] @ js ''a''"
  by (simp add: quotes_defs)

lemma quotes_a_a_again:
  "quotes ([lsquo] @ js ''a '' @ [rsquo] @ js ''a'') = [rsquo] @ js ''a '' @ [rsquo] @ js ''a''"
  by (simp add: quotes_defs)

theorem quotes_twice_counterexample:
  "apos \<notin> set (quotes ([apos] @ js ''a '' @ [apos] @ js ''a''))
   \<and> dquote \<notin> set (quotes ([apos] @ js ''a '' @ [apos] @ js ''a''))
   \<and> \<not> has_pair hyphen (quotes ([apos] @ js ''a '' @ [apos] @ js ''a''))
   \<and> \<not> has_pair period (quotes ([apos] @ js ''a '' @ [apos] @ js ''a''))
   \<and> quotes (quotes ([apos] @ js ''a '' @ [apos] @ js ''a''))
       \<noteq> quotes ([apos] @ js ''a '' @ [apos] @ js ''a'')"
  unfolding quotes_a_a quotes_a_a_again
  by (simp add: js_def char_defs)

end
